theory Spec2Isabelle
  imports Complex_Main
begin

section \<open>Numbers as Python and numpy see them\<close>

text \<open>
  A Python scalar that \<open>Series.min()\<close> and \<open>Series.max()\<close> can return, and the element of a
  floating-point column: not-a-number, the two infinities, or a finite value. Finite values
  are exact rationals; an integer is the rational of that integer, so that the comparisons
  of the source (\<open>c_min > np.iinfo(np.int8).min\<close>) are the exact comparisons Python makes.
  Signed zero is not distinguished.
\<close>

datatype scalar = NaN | NegInf | PosInf | Fin rat

text \<open>Python's \<open>a > b\<close> and \<open>a < b\<close>: every comparison with NaN is false.\<close>

fun gt :: "scalar \<Rightarrow> scalar \<Rightarrow> bool" where
  "gt (Fin a) (Fin b) = (a > b)"
| "gt PosInf (Fin b) = True"
| "gt PosInf NegInf = True"
| "gt (Fin a) NegInf = True"
| "gt a b = False"

definition lt :: "scalar \<Rightarrow> scalar \<Rightarrow> bool" where
  "lt a b = gt b a"

subsection \<open>Integer types\<close>

datatype int_t = Int8 | Int16 | Int32 | Int64

fun bits :: "int_t \<Rightarrow> nat" where
  "bits Int8 = 8"
| "bits Int16 = 16"
| "bits Int32 = 32"
| "bits Int64 = 64"

text \<open>\<open>np.iinfo(t).min\<close> and \<open>np.iinfo(t).max\<close>.\<close>

definition iinfo_min :: "int_t \<Rightarrow> int" where
  "iinfo_min t = - (2 ^ (bits t - 1))"

definition iinfo_max :: "int_t \<Rightarrow> int" where
  "iinfo_max t = 2 ^ (bits t - 1) - 1"

text \<open>
  \<open>astype\<close> to a signed integer type of an integer value: numpy keeps the low bits
  (two's complement wrap-around).
\<close>

definition wrap :: "int_t \<Rightarrow> int \<Rightarrow> int" where
  "wrap t v = (v + 2 ^ (bits t - 1)) mod 2 ^ bits t - 2 ^ (bits t - 1)"

subsection \<open>Binary floating-point types\<close>

datatype float_t = Float16 | Float32 | Float64

text \<open>Precision in bits (with the hidden bit), and the exponents of the smallest and the largest normal binade.\<close>

fun prec :: "float_t \<Rightarrow> nat" where
  "prec Float16 = 11"
| "prec Float32 = 24"
| "prec Float64 = 53"

fun emin :: "float_t \<Rightarrow> int" where
  "emin Float16 = -14"
| "emin Float32 = -126"
| "emin Float64 = -1022"

fun emax :: "float_t \<Rightarrow> int" where
  "emax Float16 = 15"
| "emax Float32 = 127"
| "emax Float64 = 1023"

definition pow2 :: "int \<Rightarrow> rat" where
  "pow2 e = (if 0 \<le> e then 2 ^ nat e else 1 / 2 ^ nat (- e))"

text \<open>\<open>np.finfo(t).max\<close>; \<open>np.finfo(t).min\<close> is its negation.\<close>

definition finfo_max :: "float_t \<Rightarrow> rat" where
  "finfo_max t = (2 ^ prec t - 1) * pow2 (emax t - int (prec t) + 1)"

definition finfo_min :: "float_t \<Rightarrow> rat" where
  "finfo_min t = - finfo_max t"

text \<open>
  Conversion of a finite value to a floating-point type rounds to the nearest representable
  value, ties to the even significand (IEEE 754, the rounding of numpy's \<open>astype\<close>).
  \<open>bexp n e a\<close> looks for the binade of the magnitude \<open>a\<close>: the least exponent from \<open>e\<close>
  upwards, in at most \<open>n\<close> steps, with \<open>a < 2 ^ (e + 1)\<close>. Below the smallest normal binade
  the spacing stays that of the smallest binade (subnormal numbers).
\<close>

fun bexp :: "nat \<Rightarrow> int \<Rightarrow> rat \<Rightarrow> int" where
  "bexp 0 e a = e"
| "bexp (Suc n) e a = (if a < pow2 (e + 1) then e else bexp n (e + 1) a)"

definition exponent :: "float_t \<Rightarrow> rat \<Rightarrow> int" where
  "exponent t a = bexp (nat (emax t - emin t)) (emin t) a"

definition round_half_even :: "rat \<Rightarrow> int" where
  "round_half_even x =
     (let f = \<lfloor>x\<rfloor>; d = x - of_int f
      in if d < 1 / 2 then f else if 1 / 2 < d then f + 1
         else if even f then f else f + 1)"

text \<open>The spacing of the representable values around a magnitude.\<close>

definition ulp :: "float_t \<Rightarrow> rat \<Rightarrow> rat" where
  "ulp t a = pow2 (exponent t a - int (prec t) + 1)"

fun fround :: "float_t \<Rightarrow> scalar \<Rightarrow> scalar" where
  "fround t (Fin q) =
     (let u = ulp t \<bar>q\<bar>; r = of_int (round_half_even (q / u)) * u
      in if finfo_max t < r then PosInf
         else if r < finfo_min t then NegInf
         else Fin r)"
| "fround t x = x"

section \<open>Series and data frames\<close>

text \<open>
  The dtypes of the model: the four signed integer types, the three floating-point types,
  and two non-numeric ones. \<open>str\<close> is the name pandas prints for a dtype, which is what the
  source compares with its list \<open>numerics\<close> and slices with \<open>[:3]\<close>.
\<close>

datatype other_t = Object | Bool

datatype dtype = IntT int_t | FloatT float_t | OtherT other_t

fun str :: "dtype \<Rightarrow> string" where
  "str (IntT Int8) = ''int8''"
| "str (IntT Int16) = ''int16''"
| "str (IntT Int32) = ''int32''"
| "str (IntT Int64) = ''int64''"
| "str (FloatT Float16) = ''float16''"
| "str (FloatT Float32) = ''float32''"
| "str (FloatT Float64) = ''float64''"
| "str (OtherT Object) = ''object''"
| "str (OtherT Bool) = ''bool''"

text \<open>
  A column: its dtype and its values in row order. An integer column holds integers, a
  floating-point column holds scalars (NaN is the missing value), any other column holds
  opaque values, \<open>None\<close> for a missing one.
\<close>

datatype series =
    IntS int_t "int list"
  | FloatS float_t "scalar list"
  | OtherS other_t "string option list"

fun dtypes :: "series \<Rightarrow> dtype" where
  "dtypes (IntS t vs) = IntT t"
| "dtypes (FloatS t vs) = FloatT t"
| "dtypes (OtherS t vs) = OtherT t"

fun size_s :: "series \<Rightarrow> nat" where
  "size_s (IntS t vs) = length vs"
| "size_s (FloatS t vs) = length vs"
| "size_s (OtherS t vs) = length vs"

text \<open>
  \<open>Series.min()\<close> and \<open>Series.max()\<close> of pandas skip NaN, and return NaN when nothing is
  left: for an empty column, and for a column of NaN only.
\<close>

definition min2 :: "scalar \<Rightarrow> scalar \<Rightarrow> scalar" where
  "min2 a b = (if lt b a then b else a)"

definition max2 :: "scalar \<Rightarrow> scalar \<Rightarrow> scalar" where
  "max2 a b = (if gt b a then b else a)"

definition nanmin :: "scalar list \<Rightarrow> scalar" where
  "nanmin xs = (case filter (\<lambda>x. x \<noteq> NaN) xs of [] \<Rightarrow> NaN | y # ys \<Rightarrow> foldl min2 y ys)"

definition nanmax :: "scalar list \<Rightarrow> scalar" where
  "nanmax xs = (case filter (\<lambda>x. x \<noteq> NaN) xs of [] \<Rightarrow> NaN | y # ys \<Rightarrow> foldl max2 y ys)"

text \<open>The numeric values of a column as Python scalars; a non-numeric column has none that the source reads.\<close>

fun scalars :: "series \<Rightarrow> scalar list" where
  "scalars (IntS t vs) = map (\<lambda>v. Fin (of_int v)) vs"
| "scalars (FloatS t vs) = vs"
| "scalars (OtherS t vs) = []"

definition series_min :: "series \<Rightarrow> scalar" where
  "series_min s = nanmin (scalars s)"

definition series_max :: "series \<Rightarrow> scalar" where
  "series_max s = nanmax (scalars s)"

text \<open>
  \<open>Series.astype\<close>: an integer column to an integer type wraps, a floating-point column to
  a floating-point type rounds, an integer column to a floating-point type rounds the
  integers. The source never converts in another direction, and such a call is left as the
  identity here.
\<close>

fun astype :: "dtype \<Rightarrow> series \<Rightarrow> series" where
  "astype (IntT t) (IntS t0 vs) = IntS t (map (wrap t) vs)"
| "astype (FloatT t) (FloatS t0 vs) = FloatS t (map (fround t) vs)"
| "astype (FloatT t) (IntS t0 vs) = FloatS t (map (\<lambda>v. fround t (Fin (of_int v))) vs)"
| "astype t s = s"

section \<open>reduce_dtypes\<close>

definition numerics :: "string list" where
  "numerics = [''int16'', ''int32'', ''int64'', ''float16'', ''float32'', ''float64'']"

definition iinfo_min_s :: "int_t \<Rightarrow> scalar" where
  "iinfo_min_s t = Fin (of_int (iinfo_min t))"

definition iinfo_max_s :: "int_t \<Rightarrow> scalar" where
  "iinfo_max_s t = Fin (of_int (iinfo_max t))"

text \<open>
  The body of the loop of \<open>reduce_dtypes\<close> for one column: the series that the column holds
  afterwards (the series it held, where no branch of the source assigns).
\<close>

definition reduce_col :: "series \<Rightarrow> series" where
  "reduce_col s =
     (let col_type = dtypes s in
      if str col_type \<in> set numerics then
        (let c_min = series_min s; c_max = series_max s in
         if take 3 (str col_type) = ''int'' then
           (if gt c_min (iinfo_min_s Int8) \<and> lt c_max (iinfo_max_s Int8)
              then astype (IntT Int8) s
            else if gt c_min (iinfo_min_s Int16) \<and> lt c_max (iinfo_max_s Int16)
              then astype (IntT Int16) s
            else if gt c_min (iinfo_min_s Int32) \<and> lt c_max (iinfo_max_s Int32)
              then astype (IntT Int32) s
            else if gt c_min (iinfo_min_s Int64) \<and> lt c_max (iinfo_max_s Int64)
              then astype (IntT Int64) s
            else s)
         else
           (if gt c_min (Fin (finfo_min Float16)) \<and> lt c_max (Fin (finfo_max Float16))
              then astype (FloatT Float16) s
            else if gt c_min (Fin (finfo_min Float32)) \<and> lt c_max (Fin (finfo_max Float32))
              then astype (FloatT Float32) s
            else astype (FloatT Float64) s))
      else s)"

subsection \<open>The data frame and the loop over its columns\<close>

text \<open>
  A data frame: the row labels (its index) and the columns in order, each with its name.
\<close>

record dataframe =
  index :: "int list"
  columns :: "(string \<times> series) list"

datatype error = KeyError | ValueError | OverflowError

text \<open>
  \<open>df[col]\<close>: the column of that name. When several columns share the name, pandas returns
  a data frame instead of a series, \<open>.dtypes\<close> is then a series of dtypes, and the test
  \<open>col_type in numerics\<close> of the source raises ValueError (the truth value of a series is
  ambiguous).
\<close>

definition getitem :: "dataframe \<Rightarrow> string \<Rightarrow> error + series" where
  "getitem df col =
     (case filter (\<lambda>c. fst c = col) (columns df) of
        [] \<Rightarrow> Inl KeyError
      | [c] \<Rightarrow> Inr (snd c)
      | _ \<Rightarrow> Inl ValueError)"

text \<open>\<open>df[col] = s\<close> for a name the frame has.\<close>

definition setitem :: "dataframe \<Rightarrow> string \<Rightarrow> series \<Rightarrow> dataframe" where
  "setitem df col s = df\<lparr>columns := map (\<lambda>c. if fst c = col then (col, s) else c) (columns df)\<rparr>"

fun reduce_loop :: "string list \<Rightarrow> dataframe \<Rightarrow> error + dataframe" where
  "reduce_loop [] df = Inr df"
| "reduce_loop (col # cols) df =
     (case getitem df col of
        Inl e \<Rightarrow> Inl e
      | Inr s \<Rightarrow> reduce_loop cols (setitem df col (reduce_col s)))"

text \<open>
  What \<open>print\<close> receives when \<open>verbose\<close> is on: one line that reports the memory usage of the
  frame after the loop and the reduction in percent of the usage before it. Both figures come
  from \<open>df.memory_usage().sum()\<close>, the accounting that pandas makes of the index and of the
  buffers of the columns; that accounting is not part of the source, and the line is kept
  here as the event that it was printed, without its figures.
\<close>

datatype report = MemUsageLine

text \<open>
  \<open>reduce_dtypes(df, verbose)\<close> returns the frame; the second component is what it printed.
\<close>

definition reduce_dtypes :: "dataframe \<Rightarrow> bool \<Rightarrow> error + dataframe \<times> report list" where
  "reduce_dtypes df verbose =
     (case reduce_loop (map fst (columns df)) df of
        Inl e \<Rightarrow> Inl e
      | Inr df' \<Rightarrow> Inr (df', if verbose then [MemUsageLine] else []))"

text \<open>
  The test that the source makes for one candidate integer type, read on the values of a
  non-empty integer column: \<open>c_min > np.iinfo(t).min and c_max < np.iinfo(t).max\<close>.
\<close>

definition fits :: "int_t \<Rightarrow> int list \<Rightarrow> bool" where
  "fits t vs = (iinfo_min t < Min (set vs) \<and> Max (set vs) < iinfo_max t)"

text \<open>The frame in which every column has gone through the body of the loop once.\<close>

definition reduced :: "dataframe \<Rightarrow> dataframe" where
  "reduced df = df\<lparr>columns := map (\<lambda>c. (fst c, reduce_col (snd c))) (columns df)\<rparr>"

text \<open>
  The test of the source for one candidate floating-point type:
  \<open>c_min > np.finfo(t).min and c_max < np.finfo(t).max\<close>.
\<close>

definition strictly_inside :: "float_t \<Rightarrow> scalar list \<Rightarrow> bool" where
  "strictly_inside t vs =
     (gt (nanmin vs) (Fin (finfo_min t)) \<and> lt (nanmax vs) (Fin (finfo_max t)))"

text \<open>
  What the test means for the values of the column: there is a value that is not NaN, and
  every value that is not NaN is finite and lies strictly between the minimum and the
  maximum of the type.
\<close>

fun in_range :: "float_t \<Rightarrow> scalar \<Rightarrow> bool" where
  "in_range t (Fin q) = (finfo_min t < q \<and> q < finfo_max t)"
| "in_range t x = False"

definition range_within :: "float_t \<Rightarrow> scalar list \<Rightarrow> bool" where
  "range_within t vs = ((\<exists>v\<in>set vs. v \<noteq> NaN) \<and> (\<forall>v\<in>set vs. v \<noteq> NaN \<longrightarrow> in_range t v))"

text \<open>
  The columns that come out of the body of the loop and that a second pass of the body
  leaves as they are: a float16 or a float32 column has to pass the range test of its own
  type; every other column does.
\<close>

fun stable_col :: "series \<Rightarrow> bool" where
  "stable_col (FloatS Float16 vs) = strictly_inside Float16 vs"
| "stable_col (FloatS Float32 vs) = strictly_inside Float32 vs"
| "stable_col s = True"

section \<open>size_of_fmt\<close>

text \<open>
  The argument \<open>num\<close>: a Python int, which is unbounded, or a float, which is a double. A
  float is a scalar as above, its finite values exact rationals; the float \<open>-0.0\<close>, which
  scalars do not tell from \<open>0.0\<close>, is a value of its own here, because \<open>%3.1f\<close> prints its
  sign.
\<close>

datatype num = IntN int | FloatN scalar | NegZeroN

text \<open>
  \<open>float(i)\<close>, the conversion that Python makes of an int operand of \<open>/\<close> and of an int argument
  of \<open>%f\<close>: the nearest double, ties to even, and OverflowError when that is beyond the
  largest double.
\<close>

definition float_of_int :: "int \<Rightarrow> error + scalar" where
  "float_of_int i =
     (case fround Float64 (Fin (of_int i)) of
        Fin r \<Rightarrow> Inr (Fin r)
      | _ \<Rightarrow> Inl OverflowError)"

text \<open>A rational that is the value of a double.\<close>

definition is_double :: "rat \<Rightarrow> bool" where
  "is_double q = (fround Float64 (Fin q) = Fin q)"

text \<open>The decimal digits of a natural number.\<close>

function digits :: "nat \<Rightarrow> string" where
  "digits n = (if n < 10 then [''0123456789'' ! n] else digits (n div 10) @ [''0123456789'' ! (n mod 10)])"
  by pat_completeness auto
termination
  by (relation "measure id") auto

declare digits.simps [simp del]

text \<open>
  \<open>"%3.1f" % num\<close> and \<open>"%.1f" % num\<close> for a finite double \<open>num\<close>: one digit after the point, the
  exact value of the double rounded to the nearest tenth (an exact tie goes to the even
  digit, as the correctly rounded conversion of Python does); the minimum width 3 never
  pads. A negative value that rounds to zero keeps its sign. NaN and the infinities print
  as \<open>nan\<close>, \<open>inf\<close> and \<open>-inf\<close>.
\<close>

definition fmt_1f :: "rat \<Rightarrow> string" where
  "fmt_1f num =
     (let n = nat (round_half_even (\<bar>num\<bar> * 10))
      in (if num < 0 then ''-'' else '''') @ digits (n div 10) @ ''.'' @ digits (n mod 10))"

fun fmt_float :: "scalar \<Rightarrow> string" where
  "fmt_float NaN = ''nan''"
| "fmt_float PosInf = ''inf''"
| "fmt_float NegInf = ''-inf''"
| "fmt_float (Fin q) = fmt_1f q"

text \<open>The same for any argument: an int is converted to a float first.\<close>

fun fmt :: "num \<Rightarrow> error + string" where
  "fmt (IntN i) = (case float_of_int i of Inl e \<Rightarrow> Inl e | Inr x \<Rightarrow> Inr (fmt_float x))"
| "fmt (FloatN x) = Inr (fmt_float x)"
| "fmt NegZeroN = Inr ''-0.0''"

text \<open>
  \<open>abs(num) < 1024.0\<close>. Python compares an int with a float exactly; a comparison with NaN
  is false, and so is that of an infinity.
\<close>

fun below_1024 :: "num \<Rightarrow> bool" where
  "below_1024 (IntN i) = (\<bar>i\<bar> < 1024)"
| "below_1024 (FloatN (Fin q)) = (\<bar>q\<bar> < 1024)"
| "below_1024 (FloatN x) = False"
| "below_1024 NegZeroN = True"

text \<open>
  \<open>num /= 1024.0\<close>: an int is converted to a float, and the division of doubles rounds the
  exact quotient to the nearest double. NaN and the infinities divide to themselves. The
  loop divides only numbers of magnitude at least 1024, so that the quotient is never a
  zero, whose sign is not followed here.
\<close>

fun fdiv_1024 :: "scalar \<Rightarrow> scalar" where
  "fdiv_1024 (Fin q) = fround Float64 (Fin (q / 1024))"
| "fdiv_1024 x = x"

fun truediv_1024 :: "num \<Rightarrow> error + num" where
  "truediv_1024 (IntN i) =
     (case float_of_int i of Inl e \<Rightarrow> Inl e | Inr x \<Rightarrow> Inr (FloatN (fdiv_1024 x)))"
| "truediv_1024 (FloatN x) = Inr (FloatN (fdiv_1024 x))"
| "truediv_1024 NegZeroN = Inr NegZeroN"

text \<open>The loop of \<open>size_of_fmt\<close> over the units that are left, and the return after it.\<close>

fun size_of_fmt_loop :: "string list \<Rightarrow> num \<Rightarrow> string \<Rightarrow> error + string" where
  "size_of_fmt_loop [] num suffix =
     (case fmt num of Inl e \<Rightarrow> Inl e | Inr s \<Rightarrow> Inr (s @ ''Yi'' @ suffix))"
| "size_of_fmt_loop (unit # units) num suffix =
     (if below_1024 num then
        (case fmt num of Inl e \<Rightarrow> Inl e | Inr s \<Rightarrow> Inr (s @ unit @ suffix))
      else
        (case truediv_1024 num of
           Inl e \<Rightarrow> Inl e
         | Inr num' \<Rightarrow> size_of_fmt_loop units num' suffix))"

definition units :: "string list" where
  "units = ['''', ''Ki'', ''Mi'', ''Gi'', ''Ti'', ''Pi'', ''Ei'', ''Zi'']"

definition size_of_fmt :: "num \<Rightarrow> string \<Rightarrow> error + string" where
  "size_of_fmt num suffix = size_of_fmt_loop units num suffix"

text \<open>
  The arguments that the loop scales without rounding, with their value: an int of
  magnitude at most \<open>2 ^ 53\<close>, and a finite double.
\<close>

fun exact_value :: "num \<Rightarrow> rat option" where
  "exact_value (IntN i) = (if \<bar>i\<bar> \<le> 2 ^ 53 then Some (of_int i) else None)"
| "exact_value (FloatN (Fin q)) = (if is_double q then Some q else None)"
| "exact_value x = None"

section \<open>Minimum and maximum of an integer column\<close>

lemma foldl_min2_Fin: "foldl min2 (Fin a) (map Fin xs) = Fin (Min (insert a (set xs)))"
proof (induction xs arbitrary: a)
  case Nil
  then show ?case by simp
next
  case (Cons x xs)
  have "min2 (Fin a) (Fin x) = Fin (min a x)"
    by (simp add: min2_def lt_def min_def)
  moreover have "Min (insert (min a x) (set xs)) = Min (insert a (insert x (set xs)))"
    by (cases "set xs = {}") (simp_all add: min.assoc)
  ultimately show ?case using Cons.IH [of "min a x"] by simp
qed

lemma foldl_max2_Fin: "foldl max2 (Fin a) (map Fin xs) = Fin (Max (insert a (set xs)))"
proof (induction xs arbitrary: a)
  case Nil
  then show ?case by simp
next
  case (Cons x xs)
  have "max2 (Fin a) (Fin x) = Fin (max a x)"
    by (simp add: max2_def max_def)
  moreover have "Max (insert (max a x) (set xs)) = Max (insert a (insert x (set xs)))"
    by (cases "set xs = {}") (simp_all add: max.assoc)
  ultimately show ?case using Cons.IH [of "max a x"] by simp
qed

lemma filter_nan_Fin: "filter (\<lambda>x. x \<noteq> NaN) (map Fin xs) = map Fin xs"
  by (induction xs) simp_all

lemma nanmin_Fin: "xs \<noteq> [] \<Longrightarrow> nanmin (map Fin xs) = Fin (Min (set xs))"
  by (cases xs) (simp_all add: nanmin_def filter_nan_Fin foldl_min2_Fin del: foldl_Cons)

lemma nanmax_Fin: "xs \<noteq> [] \<Longrightarrow> nanmax (map Fin xs) = Fin (Max (set xs))"
  by (cases xs) (simp_all add: nanmax_def filter_nan_Fin foldl_max2_Fin del: foldl_Cons)

lemma scalars_IntS: "scalars (IntS t vs) = map Fin (map of_int vs)"
  by simp

lemma Min_of_int: "vs \<noteq> [] \<Longrightarrow> Min (set (map rat_of_int vs)) = of_int (Min (set vs))"
proof -
  assume "vs \<noteq> []"
  then have "Min (of_int ` set vs) = rat_of_int (Min (set vs))"
    by (intro mono_Min_commute [symmetric]) (auto simp: mono_def)
  then show ?thesis by simp
qed

lemma Max_of_int: "vs \<noteq> [] \<Longrightarrow> Max (set (map rat_of_int vs)) = of_int (Max (set vs))"
proof -
  assume "vs \<noteq> []"
  then have "Max (of_int ` set vs) = rat_of_int (Max (set vs))"
    by (intro mono_Max_commute [symmetric]) (auto simp: mono_def)
  then show ?thesis by simp
qed

lemma series_min_IntS:
  "series_min (IntS t vs) = (if vs = [] then NaN else Fin (of_int (Min (set vs))))"
proof (cases "vs = []")
  case True
  then show ?thesis by (simp add: series_min_def nanmin_def)
next
  case False
  have "series_min (IntS t vs) = nanmin (map Fin (map of_int vs))"
    by (simp add: series_min_def comp_def)
  also have "\<dots> = Fin (Min (set (map rat_of_int vs)))"
    using False by (intro nanmin_Fin) simp
  finally show ?thesis using False by (simp add: Min_of_int del: set_map)
qed

lemma series_max_IntS:
  "series_max (IntS t vs) = (if vs = [] then NaN else Fin (of_int (Max (set vs))))"
proof (cases "vs = []")
  case True
  then show ?thesis by (simp add: series_max_def nanmax_def)
next
  case False
  have "series_max (IntS t vs) = nanmax (map Fin (map of_int vs))"
    by (simp add: series_max_def comp_def)
  also have "\<dots> = Fin (Max (set (map rat_of_int vs)))"
    using False by (intro nanmax_Fin) simp
  finally show ?thesis using False by (simp add: Max_of_int del: set_map)
qed

lemma wrap_id: "iinfo_min t \<le> v \<Longrightarrow> v \<le> iinfo_max t \<Longrightarrow> wrap t v = v"
proof -
  assume a: "iinfo_min t \<le> v" "v \<le> iinfo_max t"
  have "(2::int) ^ bits t = 2 * 2 ^ (bits t - 1)"
    by (cases t) simp_all
  with a show ?thesis
    by (simp add: wrap_def iinfo_min_def iinfo_max_def mod_pos_pos_trivial)
qed

lemma map_wrap_id:
  "vs \<noteq> [] \<Longrightarrow> iinfo_min t < Min (set vs) \<Longrightarrow> Max (set vs) < iinfo_max t \<Longrightarrow> map (wrap t) vs = vs"
proof -
  assume a: "vs \<noteq> []" "iinfo_min t < Min (set vs)" "Max (set vs) < iinfo_max t"
  have "wrap t v = v" if "v \<in> set vs" for v
  proof -
    have "Min (set vs) \<le> v" "v \<le> Max (set vs)" using that by simp_all
    with a show ?thesis by (intro wrap_id) linarith+
  qed
  then show ?thesis by (simp add: map_idI)
qed

lemma reduce_col_IntS:
  assumes "t \<noteq> Int8" "vs \<noteq> []"
  shows "reduce_col (IntS t vs) =
     (if fits Int8 vs then IntS Int8 vs
      else if fits Int16 vs then IntS Int16 vs
      else if fits Int32 vs then IntS Int32 vs
      else if fits Int64 vs then IntS Int64 vs
      else IntS t vs)"
proof -
  have n: "str (IntT t) \<in> set numerics" "take 3 (str (IntT t)) = ''int''"
    using assms(1) by (cases t; simp add: numerics_def)+
  have g: "gt (series_min (IntS t vs)) (iinfo_min_s k) \<and> lt (series_max (IntS t vs)) (iinfo_max_s k)
      \<longleftrightarrow> fits k vs" for k
    using assms(2) by (simp add: series_min_IntS series_max_IntS iinfo_min_s_def iinfo_max_s_def lt_def fits_def)
  have w: "fits k vs \<Longrightarrow> map (wrap k) vs = vs" for k
    using assms(2) by (simp add: fits_def map_wrap_id)
  show ?thesis
    unfolding reduce_col_def Let_def using n by (simp add: g w del: str.simps)
qed

lemma reduce_col_IntS_empty: "reduce_col (IntS t []) = IntS t []"
  by (cases t) (simp_all add: reduce_col_def Let_def series_min_IntS series_max_IntS lt_def)

lemma reduce_col_Int8: "reduce_col (IntS Int8 vs) = IntS Int8 vs"
  by (simp add: reduce_col_def numerics_def)

lemma reduce_col_OtherS: "reduce_col (OtherS t vs) = OtherS t vs"
  by (cases t) (simp_all add: reduce_col_def numerics_def)

section \<open>The loop over the columns\<close>

lemma key_unique:
  "distinct (map fst cs) \<Longrightarrow> (n, a) \<in> set cs \<Longrightarrow> (n, b) \<in> set cs \<Longrightarrow> a = b"
  by (induction cs) (auto simp: image_iff)

lemma filter_fst_distinct:
  "distinct (map fst cs) \<Longrightarrow> (n, s) \<in> set cs \<Longrightarrow> filter (\<lambda>c. fst c = n) cs = [(n, s)]"
proof (induction cs)
  case Nil
  then show ?case by simp
next
  case (Cons c cs)
  show ?case
  proof (cases "fst c = n")
    case True
    have "c = (n, snd c)" using True by (simp add: prod_eq_iff)
    then have "(n, snd c) \<in> set (c # cs)" by simp
    with Cons.prems have "snd c = s" by (blast intro: key_unique)
    with True have "c = (n, s)" by (cases c) simp
    moreover have "filter (\<lambda>c. fst c = n) cs = []"
      using Cons.prems(1) True by (auto simp: filter_empty_conv image_iff)
    ultimately show ?thesis by simp
  next
    case False
    with Cons show ?thesis by auto
  qed
qed

lemma getitem_distinct:
  "distinct (map fst (columns df)) \<Longrightarrow> (n, s) \<in> set (columns df) \<Longrightarrow> getitem df n = Inr s"
  by (simp add: getitem_def filter_fst_distinct)

lemma names_setitem: "map fst (columns (setitem df col s)) = map fst (columns df)"
  by (simp add: setitem_def comp_def)

lemma reduce_loop_distinct:
  "distinct (map fst (columns df)) \<Longrightarrow> distinct ns \<Longrightarrow> set ns \<subseteq> fst ` set (columns df) \<Longrightarrow>
   reduce_loop ns df =
     Inr (df\<lparr>columns := map (\<lambda>c. if fst c \<in> set ns then (fst c, reduce_col (snd c)) else c) (columns df)\<rparr>)"
proof (induction ns arbitrary: df)
  case Nil
  then show ?case by simp
next
  case (Cons col ns)
  from Cons.prems(3) obtain s where s: "(col, s) \<in> set (columns df)" by auto
  let ?df1 = "setitem df col (reduce_col s)"
  have g: "getitem df col = Inr s"
    using Cons.prems(1) s by (rule getitem_distinct)
  have d1: "distinct (map fst (columns ?df1))"
    using Cons.prems(1) by (simp only: names_setitem)
  have f1: "fst ` set (columns ?df1) = fst ` set (columns df)"
    using names_setitem [of df col "reduce_col s"] by (metis list.set_map)
  have ih: "reduce_loop ns ?df1 =
     Inr (?df1\<lparr>columns := map (\<lambda>c. if fst c \<in> set ns then (fst c, reduce_col (snd c)) else c) (columns ?df1)\<rparr>)"
    using Cons.prems(2,3) d1 f1 by (intro Cons.IH) auto
  have u: "snd c = s" if "c \<in> set (columns df)" "fst c = col" for c
  proof -
    have "c = (col, snd c)" using that(2) by (simp add: prod_eq_iff)
    then have "(col, snd c) \<in> set (columns df)" using that(1) by simp
    with Cons.prems(1) show ?thesis using s by (rule key_unique)
  qed
  have "map (\<lambda>c. if fst c \<in> set ns then (fst c, reduce_col (snd c)) else c) (columns ?df1)
      = map (\<lambda>c. if fst c \<in> set (col # ns) then (fst c, reduce_col (snd c)) else c) (columns df)"
    using Cons.prems(2) u by (auto simp: setitem_def)
  then show ?case using g ih by (simp add: setitem_def)
qed

lemma reduce_dtypes_distinct:
  assumes "distinct (map fst (columns df))"
  shows "reduce_dtypes df verbose =
     Inr (reduced df, if verbose then [MemUsageLine] else [])"
proof -
  have "reduce_loop (map fst (columns df)) df = Inr (reduced df)"
    using assms by (subst reduce_loop_distinct) (auto simp: reduced_def intro!: map_cong)
  then show ?thesis by (simp add: reduce_dtypes_def)
qed

lemma getitem_reduced:
  "distinct (map fst (columns df)) \<Longrightarrow> (n, s) \<in> set (columns df) \<Longrightarrow>
   getitem (reduced df) n = Inr (reduce_col s)"
proof -
  assume a: "distinct (map fst (columns df))" "(n, s) \<in> set (columns df)"
  have "distinct (map fst (columns (reduced df)))"
    using a(1) by (simp add: reduced_def comp_def)
  moreover have "(n, reduce_col s) \<in> set (columns (reduced df))"
    using a(2) by (force simp: reduced_def)
  ultimately show ?thesis by (rule getitem_distinct)
qed

section \<open>Integer columns\<close>

lemma reduce_col_IntS_choice:
  assumes "t \<noteq> Int8" "vs \<noteq> []" "fits Int64 vs"
  shows "\<exists>T. reduce_col (IntS t vs) = IntS T vs \<and> fits T vs \<and> (\<forall>T'. bits T' < bits T \<longrightarrow> \<not> fits T' vs)"
proof -
  note r = reduce_col_IntS [OF assms(1,2)]
  consider (a) "fits Int8 vs" | (b) "\<not> fits Int8 vs" "fits Int16 vs"
    | (c) "\<not> fits Int8 vs" "\<not> fits Int16 vs" "fits Int32 vs"
    | (d) "\<not> fits Int8 vs" "\<not> fits Int16 vs" "\<not> fits Int32 vs"
    by blast
  then show ?thesis
  proof cases
    case a
    have "\<forall>T'. bits T' < bits Int8 \<longrightarrow> \<not> fits T' vs"
    proof (intro allI impI)
      fix T' assume "bits T' < bits Int8" then show "\<not> fits T' vs" by (cases T') simp_all
    qed
    with a r show ?thesis by auto
  next
    case b
    have "\<forall>T'. bits T' < bits Int16 \<longrightarrow> \<not> fits T' vs"
    proof (intro allI impI)
      fix T' assume "bits T' < bits Int16" then show "\<not> fits T' vs" using b by (cases T') simp_all
    qed
    with b r show ?thesis by auto
  next
    case c
    have "\<forall>T'. bits T' < bits Int32 \<longrightarrow> \<not> fits T' vs"
    proof (intro allI impI)
      fix T' assume "bits T' < bits Int32" then show "\<not> fits T' vs" using c by (cases T') simp_all
    qed
    with c r show ?thesis by auto
  next
    case d
    have "\<forall>T'. bits T' < bits Int64 \<longrightarrow> \<not> fits T' vs"
    proof (intro allI impI)
      fix T' assume "bits T' < bits Int64" then show "\<not> fits T' vs" using d by (cases T') simp_all
    qed
    with d r assms(3) show ?thesis by auto
  qed
qed

text \<open>
  Claim C1, as amended. For a frame with distinct column names and a non-empty column of
  declared type int16, int32 or int64 whose values all lie strictly between the minimum and
  the maximum of int64: \<open>reduce_dtypes\<close> returns, the column keeps its values and gets a
  type \<open>T\<close> of int8, int16, int32, int64 with \<open>min > T.min\<close> and \<open>max < T.max\<close>, and no
  narrower type of that list has both strict bounds.
\<close>

theorem reduce_dtypes_int_strict_minimal:
  assumes "distinct (map fst (columns df))" and "(n, IntS t vs) \<in> set (columns df)"
    and "t \<noteq> Int8" and "vs \<noteq> []" and "fits Int64 vs"
  shows "\<exists>df' out T. reduce_dtypes df verbose = Inr (df', out) \<and> getitem df' n = Inr (IntS T vs)
           \<and> fits T vs \<and> (\<forall>T'. bits T' < bits T \<longrightarrow> \<not> fits T' vs)"
proof -
  obtain T where T: "reduce_col (IntS t vs) = IntS T vs" "fits T vs"
      "\<forall>T'. bits T' < bits T \<longrightarrow> \<not> fits T' vs"
    using reduce_col_IntS_choice [OF assms(3,4,5)] by blast
  have "getitem (reduced df) n = Inr (IntS T vs)"
    using getitem_reduced [OF assms(1,2)] T(1) by simp
  with T(2,3) show ?thesis
    unfolding reduce_dtypes_distinct [OF assms(1)] by blast
qed

theorem reduce_dtypes_int_strict_minimal_witness:
  "\<exists>df' out T. reduce_dtypes \<lparr>index = [0, 1], columns = [(''a'', IntS Int64 [300, -5])]\<rparr> True = Inr (df', out)
      \<and> getitem df' ''a'' = Inr (IntS T [300, -5])
      \<and> fits T [300, -5] \<and> (\<forall>T'. bits T' < bits T \<longrightarrow> \<not> fits T' [300, -5])"
  using reduce_dtypes_int_strict_minimal
    [of "\<lparr>index = [0, 1], columns = [(''a'', IntS Int64 [300, -5])]\<rparr>" "''a''" Int64 "[300, -5]" True]
  by (simp add: fits_def iinfo_min_def iinfo_max_def)

text \<open>
  Claim C1 as stated fails on two kinds of integer column. A column of int64 that holds the
  maximum of int64 passes none of the four tests and keeps int64, whose maximum its own
  maximum does not stay below; a column of int8 is not in \<open>numerics\<close>, is not processed,
  and keeps int8 also when it holds 127.
\<close>

theorem reduce_dtypes_int_strict_counterexample:
  "reduce_dtypes \<lparr>index = [0], columns = [(''a'', IntS Int64 [9223372036854775807]), (''b'', IntS Int8 [127])]\<rparr> False
     = Inr (\<lparr>index = [0], columns = [(''a'', IntS Int64 [9223372036854775807]), (''b'', IntS Int8 [127])]\<rparr>, [])
   \<and> \<not> Max (set [9223372036854775807]) < iinfo_max Int64
   \<and> \<not> Max (set [127]) < iinfo_max Int8"
  by code_simp

section \<open>Further properties of the column loop\<close>

lemma reduce_col_FloatS:
  "reduce_col (FloatS t vs) =
     (if gt (nanmin vs) (Fin (finfo_min Float16)) \<and> lt (nanmax vs) (Fin (finfo_max Float16))
        then FloatS Float16 (map (fround Float16) vs)
      else if gt (nanmin vs) (Fin (finfo_min Float32)) \<and> lt (nanmax vs) (Fin (finfo_max Float32))
        then FloatS Float32 (map (fround Float32) vs)
      else FloatS Float64 (map (fround Float64) vs))"
  by (cases t) (simp_all add: reduce_col_def Let_def numerics_def series_min_def series_max_def)

lemma reduce_col_FloatS_empty: "reduce_col (FloatS t []) = FloatS Float64 []"
  by (simp add: reduce_col_FloatS nanmin_def)

lemma reduce_col_FloatS_any: "\<exists>T. reduce_col (FloatS t vs) = FloatS T (map (fround T) vs)"
  by (simp add: reduce_col_FloatS)

lemma reduce_col_IntS_any: "\<exists>T. reduce_col (IntS t vs) = IntS T vs"
proof (cases "t = Int8 \<or> vs = []")
  case True
  then show ?thesis using reduce_col_Int8 reduce_col_IntS_empty by auto
next
  case False
  then show ?thesis using reduce_col_IntS [of t vs] by auto
qed

text \<open>
  Claim C4, as amended. In a frame with distinct column names, an integer column that holds
  the value 127 and whose values all lie in the range of int8, from -128 to 127, comes out
  of \<open>reduce_dtypes\<close> with its values unchanged, and as int16 when its declared type is int16,
  int32 or int64: it is not narrowed to int8. When its declared type is int8 already, it is
  not processed and stays int8.
\<close>

theorem reduce_dtypes_127_promoted:
  assumes "distinct (map fst (columns df))" and "(n, IntS t vs) \<in> set (columns df)"
    and "127 \<in> set vs" and "\<forall>v\<in>set vs. - 128 \<le> v \<and> v \<le> 127"
  shows "\<exists>df' out. reduce_dtypes df verbose = Inr (df', out) \<and>
     getitem df' n = Inr (IntS (if t = Int8 then Int8 else Int16) vs)"
proof -
  have ne: "vs \<noteq> []" using assms(3) by auto
  have mx: "Max (set vs) = 127"
    using assms(3,4) by (intro Max_eqI) auto
  have mn: "- 128 \<le> Min (set vs)"
    using assms(4) ne by simp
  have f: "\<not> fits Int8 vs" "fits Int16 vs"
    using mx mn by (simp_all add: fits_def iinfo_min_def iinfo_max_def)
  have "reduce_col (IntS t vs) = IntS (if t = Int8 then Int8 else Int16) vs"
  proof (cases "t = Int8")
    case True
    then show ?thesis by (simp add: reduce_col_Int8)
  next
    case False
    then show ?thesis using reduce_col_IntS [OF False ne] f by simp
  qed
  then have "getitem (reduced df) n = Inr (IntS (if t = Int8 then Int8 else Int16) vs)"
    using getitem_reduced [OF assms(1,2)] by simp
  then show ?thesis
    unfolding reduce_dtypes_distinct [OF assms(1)] by blast
qed

theorem reduce_dtypes_127_promoted_witness:
  "\<exists>df' out. reduce_dtypes \<lparr>index = [0, 1, 2], columns = [(''k'', IntS Int64 [127, -128, 5])]\<rparr> True = Inr (df', out)
     \<and> getitem df' ''k'' = Inr (IntS Int16 [127, -128, 5])"
  using reduce_dtypes_127_promoted
    [of "\<lparr>index = [0, 1, 2], columns = [(''k'', IntS Int64 [127, -128, 5])]\<rparr>" "''k''" Int64 "[127, -128, 5]" True]
  by simp

text \<open>
  Claim C4 as stated fails for a column whose declared type is int8 already: \<open>int8\<close> is not
  in \<open>numerics\<close>, the column is not processed, and with the value 127 it is left at int8.
\<close>

theorem reduce_dtypes_127_int8_counterexample:
  "reduce_dtypes \<lparr>index = [0, 1], columns = [(''k'', IntS Int8 [127, 5])]\<rparr> False
     = Inr (\<lparr>index = [0, 1], columns = [(''k'', IntS Int8 [127, 5])]\<rparr>, [])"
  by code_simp

text \<open>
  Claim C10. The name \<open>int8\<close> is not in the list \<open>numerics\<close>, and in a frame with distinct
  column names a column whose declared type is int8 comes out of \<open>reduce_dtypes\<close> with the
  same type and the same values.
\<close>

theorem reduce_dtypes_int8_skipped:
  assumes "distinct (map fst (columns df))" and "(n, IntS Int8 vs) \<in> set (columns df)"
  shows "str (IntT Int8) \<notin> set numerics \<and>
    (\<exists>df' out. reduce_dtypes df verbose = Inr (df', out) \<and> getitem df' n = Inr (IntS Int8 vs))"
proof -
  have "getitem (reduced df) n = Inr (IntS Int8 vs)"
    using getitem_reduced [OF assms] by (simp add: reduce_col_Int8)
  then show ?thesis
    unfolding reduce_dtypes_distinct [OF assms(1)] by (simp add: numerics_def)
qed

theorem reduce_dtypes_int8_skipped_witness:
  "str (IntT Int8) \<notin> set numerics \<and>
    (\<exists>df' out. reduce_dtypes \<lparr>index = [0, 1], columns = [(''a'', IntS Int8 [127, 3]), (''b'', IntS Int64 [1, 2])]\<rparr> True = Inr (df', out)
       \<and> getitem df' ''a'' = Inr (IntS Int8 [127, 3]))"
  using reduce_dtypes_int8_skipped
    [of "\<lparr>index = [0, 1], columns = [(''a'', IntS Int8 [127, 3]), (''b'', IntS Int64 [1, 2])]\<rparr>" "''a''" "[127, 3]" True]
  by simp

text \<open>
  Claim C9. For every frame, what \<open>reduce_dtypes\<close> returns with \<open>verbose\<close> on is what it
  returns with \<open>verbose\<close> off: the same frame, or the same error. Only what is printed
  differs.
\<close>

theorem reduce_dtypes_verbose_same_table:
  "map_sum id fst (reduce_dtypes df True) = map_sum id fst (reduce_dtypes df False)"
  by (simp add: reduce_dtypes_def split: sum.splits)

text \<open>
  Claim C3, as amended. In a frame with distinct column names, a column with no rows comes
  out of \<open>reduce_dtypes\<close> unchanged when it is an integer column or a non-numeric column,
  and as an empty column of declared type float64 when it is a floating-point column.
\<close>

theorem reduce_dtypes_empty_column:
  assumes "distinct (map fst (columns df))" and "(n, s) \<in> set (columns df)" and "size_s s = 0"
  shows "\<exists>df' out. reduce_dtypes df verbose = Inr (df', out) \<and>
     getitem df' n = Inr (case s of FloatS t vs \<Rightarrow> FloatS Float64 [] | _ \<Rightarrow> s)"
proof -
  have "reduce_col s = (case s of FloatS t vs \<Rightarrow> FloatS Float64 [] | _ \<Rightarrow> s)"
    using assms(3) by (cases s) (simp_all add: reduce_col_IntS_empty reduce_col_FloatS_empty reduce_col_OtherS)
  then have "getitem (reduced df) n = Inr (case s of FloatS t vs \<Rightarrow> FloatS Float64 [] | _ \<Rightarrow> s)"
    using getitem_reduced [OF assms(1,2)] by simp
  then show ?thesis
    unfolding reduce_dtypes_distinct [OF assms(1)] by blast
qed

theorem reduce_dtypes_empty_column_witness:
  "\<exists>df' out. reduce_dtypes \<lparr>index = [], columns = [(''i'', IntS Int32 []), (''f'', FloatS Float32 [])]\<rparr> False = Inr (df', out) \<and>
     getitem df' ''f'' = Inr (FloatS Float64 [])"
  using reduce_dtypes_empty_column
    [of "\<lparr>index = [], columns = [(''i'', IntS Int32 []), (''f'', FloatS Float32 [])]\<rparr>" "''f''" "FloatS Float32 []" False]
  by simp

text \<open>
  Claim C3 as stated fails for an empty floating-point column: its minimum is NaN, both
  range tests are false, and the \<open>else\<close> branch assigns float64. An empty float16 column
  comes out as float64.
\<close>

theorem reduce_dtypes_empty_float_counterexample:
  "reduce_dtypes \<lparr>index = [], columns = [(''f'', FloatS Float16 [])]\<rparr> False
     = Inr (\<lparr>index = [], columns = [(''f'', FloatS Float64 [])]\<rparr>, [])"
  by code_simp

text \<open>
  Claim C2, as amended. For a frame with distinct column names \<open>reduce_dtypes\<close> returns a
  frame with the same index and the same column names in the same order, and column by
  column: a non-numeric column is the same column; an integer column has the same values
  in the same order under some integer type; a floating-point column has, under some
  floating-point type \<open>T\<close>, each value converted to \<open>T\<close> in the same order (rounded to the
  nearest value of \<open>T\<close>, which need not be the value it had).
\<close>

theorem reduce_dtypes_frame:
  assumes "distinct (map fst (columns df))"
  shows "\<exists>df' out. reduce_dtypes df verbose = Inr (df', out) \<and> index df' = index df \<and>
     list_all2 (\<lambda>c c'. fst c' = fst c \<and>
         (case snd c of
            OtherS t vs \<Rightarrow> snd c' = OtherS t vs
          | IntS t vs \<Rightarrow> (\<exists>T. snd c' = IntS T vs)
          | FloatS t vs \<Rightarrow> (\<exists>T. snd c' = FloatS T (map (fround T) vs))))
       (columns df) (columns df')"
proof -
  have "list_all2 (\<lambda>c c'. fst c' = fst c \<and>
         (case snd c of
            OtherS t vs \<Rightarrow> snd c' = OtherS t vs
          | IntS t vs \<Rightarrow> (\<exists>T. snd c' = IntS T vs)
          | FloatS t vs \<Rightarrow> (\<exists>T. snd c' = FloatS T (map (fround T) vs))))
       (columns df) (columns (reduced df))"
    by (auto simp: reduced_def list_all2_map2 list_all2_same reduce_col_OtherS
        reduce_col_IntS_any reduce_col_FloatS_any split: series.splits)
  then show ?thesis
    unfolding reduce_dtypes_distinct [OF assms(1)] by (auto simp: reduced_def)
qed

theorem reduce_dtypes_frame_witness:
  "\<exists>df' out. reduce_dtypes \<lparr>index = [7, 8], columns = [(''s'', OtherS Object [Some ''x'', None]), (''i'', IntS Int32 [1, 2])]\<rparr> True = Inr (df', out)
     \<and> index df' = [7, 8] \<and>
     list_all2 (\<lambda>c c'. fst c' = fst c \<and>
         (case snd c of
            OtherS t vs \<Rightarrow> snd c' = OtherS t vs
          | IntS t vs \<Rightarrow> (\<exists>T. snd c' = IntS T vs)
          | FloatS t vs \<Rightarrow> (\<exists>T. snd c' = FloatS T (map (fround T) vs))))
       [(''s'', OtherS Object [Some ''x'', None]), (''i'', IntS Int32 [1, 2])] (columns df')"
  using reduce_dtypes_frame
    [of "\<lparr>index = [7, 8], columns = [(''s'', OtherS Object [Some ''x'', None]), (''i'', IntS Int32 [1, 2])]\<rparr>" True]
  by simp

text \<open>
  Claim C2 as stated fails for floating-point columns: the range test does not ask whether
  the values are representable in the narrower type. A float64 column holding 2049 passes
  the test for float16, whose nearest value is 2048.
\<close>

theorem reduce_dtypes_values_counterexample:
  "reduce_dtypes \<lparr>index = [0], columns = [(''x'', FloatS Float64 [Fin 2049])]\<rparr> False
     = Inr (\<lparr>index = [0], columns = [(''x'', FloatS Float16 [Fin 2048])]\<rparr>, [])"
  by code_simp

section \<open>Rounding to the nearest value of a floating-point type\<close>

lemma pow2_powi: "pow2 e = 2 powi e"
  by (simp add: pow2_def power_int_def inverse_eq_divide power_one_over)

lemma pow2_pos: "0 < pow2 e"
  by (simp add: pow2_powi)

lemma pow2_add: "pow2 (a + b) = pow2 a * pow2 b"
  by (simp add: pow2_powi power_int_add)

lemma pow2_mono: "a \<le> b \<Longrightarrow> pow2 a \<le> pow2 b"
  by (simp add: pow2_powi power_int_increasing)

lemma pow2_strict_mono: "a < b \<Longrightarrow> pow2 a < pow2 b"
  by (simp add: pow2_powi power_int_strict_increasing)

lemma pow2_nat: "pow2 (int n) = of_int (2 ^ n)"
  by (simp add: pow2_def)

lemma prec_pos: "0 < prec t"
  by (cases t) simp_all

text \<open>pow2 E and pow2 (E + 1) on the grid of binade E\<close>

lemma pow2_grid: "pow2 E = of_int (2 ^ (prec t - 1)) * pow2 (E - int (prec t) + 1)"
proof -
  have "E = int (prec t - 1) + (E - int (prec t) + 1)"
    using prec_pos [of t] by simp
  then have "pow2 E = pow2 (int (prec t - 1)) * pow2 (E - int (prec t) + 1)"
    using pow2_add by metis
  then show ?thesis by (simp only: pow2_nat)
qed

lemma pow2_grid_Suc: "pow2 (E + 1) = of_int (2 ^ prec t) * pow2 (E - int (prec t) + 1)"
proof -
  have "E + 1 = int (prec t) + (E - int (prec t) + 1)" by simp
  then have "pow2 (E + 1) = pow2 (int (prec t)) * pow2 (E - int (prec t) + 1)"
    using pow2_add by metis
  then show ?thesis by (simp only: pow2_nat)
qed

lemma bexp_bounds: "e \<le> bexp n e a \<and> bexp n e a \<le> e + int n"
proof (induction n arbitrary: e)
  case 0
  then show ?case by simp
next
  case (Suc n)
  show ?case using Suc.IH [of "e + 1"] by (cases "a < pow2 (e + 1)") simp_all
qed

lemma bexp_upper: "bexp n e a < e + int n \<Longrightarrow> a < pow2 (bexp n e a + 1)"
proof (induction n arbitrary: e)
  case 0
  then show ?case by simp
next
  case (Suc n)
  show ?case
  proof (cases "a < pow2 (e + 1)")
    case True
    then show ?thesis by simp
  next
    case False
    then have "bexp (Suc n) e a = bexp n (e + 1) a" by simp
    with Suc.prems Suc.IH [of "e + 1"] show ?thesis by simp
  qed
qed

lemma bexp_lower: "e < bexp n e a \<Longrightarrow> pow2 (bexp n e a) \<le> a"
proof (induction n arbitrary: e)
  case 0
  then show ?case by simp
next
  case (Suc n)
  show ?case
  proof (cases "a < pow2 (e + 1)")
    case True
    with Suc.prems show ?thesis by simp
  next
    case False
    then have eq: "bexp (Suc n) e a = bexp n (e + 1) a" by simp
    show ?thesis
    proof (cases "e + 1 < bexp n (e + 1) a")
      case True
      then show ?thesis using Suc.IH [of "e + 1"] eq by simp
    next
      case False
      then have "bexp n (e + 1) a = e + 1" using bexp_bounds [of "e + 1" n a] by simp
      with \<open>\<not> a < pow2 (e + 1)\<close> eq show ?thesis by simp
    qed
  qed
qed

lemma bexp_mono: "a \<le> b \<Longrightarrow> bexp n e a \<le> bexp n e b"
proof (induction n arbitrary: e)
  case 0
  then show ?case by simp
next
  case (Suc n)
  show ?case
  proof (cases "b < pow2 (e + 1)")
    case True
    with Suc.prems show ?thesis by simp
  next
    case False
    show ?thesis
    proof (cases "a < pow2 (e + 1)")
      case True
      with False show ?thesis using bexp_bounds [of "e + 1" n b] by simp
    next
      case f: False
      with False show ?thesis using Suc.IH [OF Suc.prems, of "e + 1"] by simp
    qed
  qed
qed

lemma emin_le_emax: "emin t \<le> emax t"
  by (cases t) simp_all

lemma exponent_bounds: "emin t \<le> exponent t a" "exponent t a \<le> emax t"
  using bexp_bounds [of "emin t" "nat (emax t - emin t)" a] emin_le_emax [of t]
  by (simp_all add: exponent_def)

lemma exponent_upper: "exponent t a < emax t \<Longrightarrow> a < pow2 (exponent t a + 1)"
  using bexp_upper [of "nat (emax t - emin t)" "emin t" a] emin_le_emax [of t]
  by (simp add: exponent_def)

lemma exponent_lower: "emin t < exponent t a \<Longrightarrow> pow2 (exponent t a) \<le> a"
  using bexp_lower [of "emin t" "nat (emax t - emin t)" a]
  by (simp add: exponent_def)

lemma exponent_mono: "a \<le> b \<Longrightarrow> exponent t a \<le> exponent t b"
  by (simp add: exponent_def bexp_mono)

lemma exponent_eqI:
  assumes "emin t \<le> k" "k \<le> emax t" "k = emin t \<or> pow2 k \<le> a" "a < pow2 (k + 1) \<or> k = emax t"
  shows "exponent t a = k"
proof (rule ccontr)
  assume ne: "exponent t a \<noteq> k"
  show False
  proof (cases "exponent t a < k")
    case True
    then have "exponent t a < emax t" using assms(2) by simp
    then have "a < pow2 (exponent t a + 1)" by (rule exponent_upper)
    also have "\<dots> \<le> pow2 k" using True by (intro pow2_mono) simp
    finally have "a < pow2 k" .
    moreover have "k \<noteq> emin t" using True exponent_bounds(1) [of t a] by simp
    ultimately show False using assms(3) by simp
  next
    case False
    then have g: "k < exponent t a" using ne by simp
    then have "emin t < exponent t a" using assms(1) by simp
    then have "pow2 (exponent t a) \<le> a" by (rule exponent_lower)
    moreover have "pow2 (k + 1) \<le> pow2 (exponent t a)" using g by (intro pow2_mono) simp
    moreover have "k \<noteq> emax t" using g exponent_bounds(2) [of t a] by simp
    ultimately show False using assms(4) by simp
  qed
qed

lemma rhe_of_int: "round_half_even (of_int k) = k"
  by (simp add: round_half_even_def)

lemma rhe_ge_floor: "\<lfloor>x\<rfloor> \<le> round_half_even x"
  by (simp add: round_half_even_def Let_def)

lemma rhe_ge: "of_int k \<le> x \<Longrightarrow> k \<le> round_half_even x"
proof -
  assume "of_int k \<le> x"
  then have "k \<le> \<lfloor>x\<rfloor>" by (simp add: le_floor_iff)
  then show ?thesis using rhe_ge_floor [of x] by linarith
qed

lemma rhe_le: "x \<le> of_int k \<Longrightarrow> round_half_even x \<le> k"
proof -
  assume a: "x \<le> of_int k"
  have "\<lfloor>x\<rfloor> \<le> \<lfloor>of_int k :: rat\<rfloor>" using a by (rule floor_mono)
  then have f: "\<lfloor>x\<rfloor> \<le> k" by simp
  show ?thesis
  proof (cases "x - of_int \<lfloor>x\<rfloor> < 1 / 2")
    case True
    then show ?thesis using f by (simp add: round_half_even_def)
  next
    case False
    then have "of_int \<lfloor>x\<rfloor> < x" by linarith
    then have "of_int \<lfloor>x\<rfloor> < (of_int k :: rat)" using a by linarith
    then have "\<lfloor>x\<rfloor> < k" by (simp only: of_int_less_iff)
    then show ?thesis by (simp add: round_half_even_def Let_def)
  qed
qed

lemma ulp_pos: "0 < ulp t a"
  by (simp add: ulp_def pow2_pos)

lemma rnd_ge:
  assumes g: "c = of_int m * ulp t c" and cpos: "0 < c" and le: "c \<le> q"
  shows "c \<le> of_int (round_half_even (q / ulp t \<bar>q\<bar>)) * ulp t \<bar>q\<bar>"
proof -
  have q: "\<bar>q\<bar> = q" using cpos le by simp
  have m: "exponent t c \<le> exponent t q" using le by (rule exponent_mono)
  show ?thesis
  proof (cases "exponent t q = exponent t c")
    case True
    then have u: "ulp t q = ulp t c" by (simp add: ulp_def)
    have "of_int m \<le> q / ulp t c"
      using g le ulp_pos [of t c] by (simp add: pos_le_divide_eq)
    then have "m \<le> round_half_even (q / ulp t c)" by (rule rhe_ge)
    then have "of_int m * ulp t c \<le> of_int (round_half_even (q / ulp t c)) * ulp t c"
      using ulp_pos [of t c] by (simp add: mult_right_mono)
    then show ?thesis using g q u by simp
  next
    case False
    with m have lt: "exponent t c < exponent t q" by simp
    have "emin t < exponent t q" using lt exponent_bounds(1) [of t c] by linarith
    then have lo: "pow2 (exponent t q) \<le> q" by (rule exponent_lower)
    have gr: "pow2 (exponent t q) = of_int (2 ^ (prec t - 1)) * ulp t q"
      unfolding ulp_def by (rule pow2_grid)
    have "of_int (2 ^ (prec t - 1)) \<le> q / ulp t q"
      using lo gr ulp_pos [of t q] by (simp add: pos_le_divide_eq)
    then have "2 ^ (prec t - 1) \<le> round_half_even (q / ulp t q)" by (rule rhe_ge)
    then have "of_int (2 ^ (prec t - 1)) * ulp t q \<le> of_int (round_half_even (q / ulp t q)) * ulp t q"
      using ulp_pos [of t q] by (simp only: mult_right_mono of_int_le_iff less_imp_le)
    then have a: "pow2 (exponent t q) \<le> of_int (round_half_even (q / ulp t q)) * ulp t q"
      using gr by simp
    have "exponent t c < emax t" using lt exponent_bounds(2) [of t q] by linarith
    then have "c < pow2 (exponent t c + 1)" by (rule exponent_upper)
    also have "\<dots> \<le> pow2 (exponent t q)" using lt by (intro pow2_mono) simp
    finally show ?thesis using a q by simp
  qed
qed

lemma rnd_le:
  assumes g: "c = of_int m * ulp t c" and cpos: "0 < c" and le: "q \<le> - c"
  shows "of_int (round_half_even (q / ulp t \<bar>q\<bar>)) * ulp t \<bar>q\<bar> \<le> - c"
proof -
  have q: "\<bar>q\<bar> = - q" using cpos le by simp
  have m: "exponent t c \<le> exponent t (- q)" using le by (intro exponent_mono) simp
  show ?thesis
  proof (cases "exponent t (- q) = exponent t c")
    case True
    then have u: "ulp t (- q) = ulp t c" by (simp add: ulp_def)
    have "q \<le> - (of_int m * ulp t c)" using g le by simp
    then have "q / ulp t c \<le> of_int (- m)"
      using ulp_pos [of t c] by (simp add: pos_divide_le_eq)
    then have "round_half_even (q / ulp t c) \<le> - m" by (rule rhe_le)
    then have "of_int (round_half_even (q / ulp t c)) * ulp t c \<le> of_int (- m) * ulp t c"
      using ulp_pos [of t c] by (simp only: mult_right_mono of_int_le_iff less_imp_le)
    then show ?thesis using g q u by simp
  next
    case False
    with m have lt: "exponent t c < exponent t (- q)" by simp
    have "emin t < exponent t (- q)" using lt exponent_bounds(1) [of t c] by linarith
    then have lo: "pow2 (exponent t (- q)) \<le> - q" by (rule exponent_lower)
    have gr: "pow2 (exponent t (- q)) = of_int (2 ^ (prec t - 1)) * ulp t (- q)"
      unfolding ulp_def by (rule pow2_grid)
    have "q \<le> - (of_int (2 ^ (prec t - 1)) * ulp t (- q))" using lo gr by simp
    then have "q / ulp t (- q) \<le> of_int (- (2 ^ (prec t - 1)))"
      using ulp_pos [of t "- q"] by (simp add: pos_divide_le_eq)
    then have "round_half_even (q / ulp t (- q)) \<le> - (2 ^ (prec t - 1))" by (rule rhe_le)
    then have "of_int (round_half_even (q / ulp t (- q))) * ulp t (- q)
        \<le> of_int (- (2 ^ (prec t - 1))) * ulp t (- q)"
      using ulp_pos [of t "- q"] by (simp only: mult_right_mono of_int_le_iff less_imp_le)
    then have a: "of_int (round_half_even (q / ulp t (- q))) * ulp t (- q) \<le> - pow2 (exponent t (- q))"
      using gr by simp
    have "exponent t c < emax t" using lt exponent_bounds(2) [of t "- q"] by linarith
    then have "c < pow2 (exponent t c + 1)" by (rule exponent_upper)
    also have "\<dots> \<le> pow2 (exponent t (- q))" using lt by (intro pow2_mono) simp
    finally show ?thesis using a q by simp
  qed
qed

lemma rhe_abs_le: "\<bar>x\<bar> \<le> of_int k \<Longrightarrow> \<bar>round_half_even x\<bar> \<le> k"
proof -
  assume a: "\<bar>x\<bar> \<le> of_int k"
  then have "x \<le> of_int k" by linarith
  then have 1: "round_half_even x \<le> k" by (rule rhe_le)
  have "of_int (- k) \<le> x" using a by simp
  then have "- k \<le> round_half_even x" by (rule rhe_ge)
  with 1 show ?thesis by linarith
qed

lemma rhe_abs_ge: "of_int k \<le> \<bar>x\<bar> \<Longrightarrow> k \<le> \<bar>round_half_even x\<bar>"
proof (cases "0 \<le> x")
  case True
  assume "of_int k \<le> \<bar>x\<bar>"
  with True have "of_int k \<le> x" by simp
  then have "k \<le> round_half_even x" by (rule rhe_ge)
  then show ?thesis by linarith
next
  case False
  assume "of_int k \<le> \<bar>x\<bar>"
  with False have "x \<le> of_int (- k)" by simp
  then have "round_half_even x \<le> - k" by (rule rhe_le)
  then show ?thesis by linarith
qed

lemma finfo_max_ulp: "finfo_max t = of_int (2 ^ prec t - 1) * pow2 (emax t - int (prec t) + 1)"
  by (simp add: finfo_max_def)

lemma on_grid_fixed:
  assumes "r = of_int k * ulp t \<bar>r\<bar>"
  shows "of_int (round_half_even (r / ulp t \<bar>r\<bar>)) * ulp t \<bar>r\<bar> = r"
proof -
  have "r / ulp t \<bar>r\<bar> = of_int k"
    using assms ulp_pos [of t "\<bar>r\<bar>"] by (simp add: nonzero_divide_eq_eq)
  then show ?thesis using assms by (simp add: rhe_of_int)
qed

lemma rnd_grid:
  fixes q :: rat and t :: float_t
  defines "u \<equiv> ulp t \<bar>q\<bar>"
  defines "n \<equiv> round_half_even (q / u)"
  defines "r \<equiv> of_int n * u"
  assumes fin: "\<bar>r\<bar> \<le> finfo_max t"
  shows "of_int (round_half_even (r / ulp t \<bar>r\<bar>)) * ulp t \<bar>r\<bar> = r"
proof -
  let ?E = "exponent t \<bar>q\<bar>"
  let ?p = "prec t"
  have u: "u = pow2 (?E - int ?p + 1)" by (simp add: u_def ulp_def)
  have upos: "0 < u" by (simp add: u_def ulp_pos)
  have absr: "\<bar>r\<bar> = of_int \<bar>n\<bar> * u" using upos by (simp add: r_def abs_mult)
  have E: "emin t \<le> ?E" "?E \<le> emax t" by (rule exponent_bounds)+
  have g0: "pow2 ?E = of_int (2 ^ (?p - 1)) * u" unfolding u by (rule pow2_grid)
  have g1: "pow2 (?E + 1) = of_int (2 ^ ?p) * u" unfolding u by (rule pow2_grid_Suc)
  have absq: "\<bar>q / u\<bar> = \<bar>q\<bar> / u" using upos by simp
  have up: "\<bar>n\<bar> \<le> 2 ^ ?p \<and> (?E = emax t \<longrightarrow> \<bar>n\<bar> < 2 ^ ?p)"
  proof (cases "?E = emax t")
    case True
    have "of_int \<bar>n\<bar> * u \<le> of_int (2 ^ ?p - 1) * u"
      using fin absr True u by (simp only: finfo_max_ulp)
    then have "of_int \<bar>n\<bar> \<le> (of_int (2 ^ ?p - 1) :: rat)"
      using upos by (simp only: mult_le_cancel_right_pos)
    then have "\<bar>n\<bar> \<le> 2 ^ ?p - 1" by (simp only: of_int_le_iff)
    then show ?thesis by simp
  next
    case False
    with E have "?E < emax t" by simp
    then have "\<bar>q\<bar> < pow2 (?E + 1)" by (rule exponent_upper)
    then have "\<bar>q\<bar> / u \<le> of_int (2 ^ ?p)"
      using g1 upos by (simp add: pos_divide_le_eq)
    then have "\<bar>q / u\<bar> \<le> of_int (2 ^ ?p)" by (simp only: absq)
    then have "\<bar>n\<bar> \<le> 2 ^ ?p" unfolding n_def by (rule rhe_abs_le)
    with False show ?thesis by simp
  qed
  have lo: "?E = emin t \<or> 2 ^ (?p - 1) \<le> \<bar>n\<bar>"
  proof (cases "?E = emin t")
    case True
    then show ?thesis by simp
  next
    case False
    with E have "emin t < ?E" by simp
    then have "pow2 ?E \<le> \<bar>q\<bar>" by (rule exponent_lower)
    then have "of_int (2 ^ (?p - 1)) \<le> \<bar>q\<bar> / u"
      using g0 upos by (simp add: pos_le_divide_eq)
    then have "of_int (2 ^ (?p - 1)) \<le> \<bar>q / u\<bar>" by (simp only: absq)
    then have "2 ^ (?p - 1) \<le> \<bar>n\<bar>" unfolding n_def by (rule rhe_abs_ge)
    then show ?thesis by simp
  qed
  show ?thesis
  proof (cases "\<bar>n\<bar> < 2 ^ ?p")
    case True
    have a: "?E = emin t \<or> pow2 ?E \<le> \<bar>r\<bar>"
    proof (cases "?E = emin t")
      case True
      then show ?thesis by simp
    next
      case False
      with lo have "2 ^ (?p - 1) \<le> \<bar>n\<bar>" by blast
      then have "(of_int (2 ^ (?p - 1)) :: rat) \<le> of_int \<bar>n\<bar>" by (simp only: of_int_le_iff)
      then have "of_int (2 ^ (?p - 1)) * u \<le> of_int \<bar>n\<bar> * u"
        using upos by (simp only: mult_le_cancel_right_pos)
      then show ?thesis using g0 absr by simp
    qed
    have "(of_int \<bar>n\<bar> :: rat) < of_int (2 ^ ?p)" using True by (simp only: of_int_less_iff)
    then have "of_int \<bar>n\<bar> * u < of_int (2 ^ ?p) * u"
      using upos by (simp only: mult_less_cancel_right_pos)
    then have b: "\<bar>r\<bar> < pow2 (?E + 1) \<or> ?E = emax t" using g1 absr by simp
    have "exponent t \<bar>r\<bar> = ?E" using E a b by (rule exponent_eqI)
    then have "ulp t \<bar>r\<bar> = u" by (simp add: ulp_def u)
    then have "r = of_int n * ulp t \<bar>r\<bar>" by (simp add: r_def)
    then show ?thesis by (rule on_grid_fixed)
  next
    case False
    with up have n: "\<bar>n\<bar> = 2 ^ ?p" and Elt: "?E < emax t" using E by auto
    have r1: "\<bar>r\<bar> = pow2 (?E + 1)" using absr n g1 by simp
    have "pow2 (?E + 1) < pow2 (?E + 1 + 1)" by (intro pow2_strict_mono) simp
    then have b: "\<bar>r\<bar> < pow2 (?E + 1 + 1) \<or> ?E + 1 = emax t" using r1 by simp
    have a: "?E + 1 = emin t \<or> pow2 (?E + 1) \<le> \<bar>r\<bar>" using r1 by simp
    have "emin t \<le> ?E + 1" "?E + 1 \<le> emax t" using E Elt by simp_all
    then have "exponent t \<bar>r\<bar> = ?E + 1" using a b by (rule exponent_eqI)
    then have "ulp t \<bar>r\<bar> = pow2 (1 + (?E - int ?p + 1))" by (simp add: ulp_def add.commute)
    then have u2: "ulp t \<bar>r\<bar> = 2 * u" unfolding pow2_add u by (simp add: pow2_def)
    have "even \<bar>n\<bar>" unfolding n using prec_pos [of t] by simp
    then have "even n" by simp
    then have "n = 2 * (n div 2)" by simp
    then have "of_int n = (of_int (n div 2) * 2 :: rat)"
      by (metis of_int_mult of_int_numeral mult.commute)
    then have "r = of_int (n div 2) * ulp t \<bar>r\<bar>" using u2 by (simp add: r_def)
    then show ?thesis by (rule on_grid_fixed)
  qed
qed

lemma fround_idem: "fround t (fround t v) = fround t v"
proof (cases v)
  case (Fin q)
  let ?r = "of_int (round_half_even (q / ulp t \<bar>q\<bar>)) * ulp t \<bar>q\<bar>"
  show ?thesis
  proof (cases "finfo_max t < ?r \<or> ?r < finfo_min t")
    case True
    then show ?thesis using Fin by (auto simp: Let_def)
  next
    case False
    then have "\<bar>?r\<bar> \<le> finfo_max t" unfolding finfo_min_def by linarith
    then have "of_int (round_half_even (?r / ulp t \<bar>?r\<bar>)) * ulp t \<bar>?r\<bar> = ?r" by (rule rnd_grid)
    then show ?thesis using Fin False by (simp add: Let_def)
  qed
qed simp_all

lemma pow2_0: "pow2 0 = 1"
  by (simp add: pow2_def)

lemma finfo_max_lt: "finfo_max t < pow2 (emax t + 1)"
proof -
  have "(of_int (2 ^ prec t - 1) :: rat) < of_int (2 ^ prec t)" by simp
  then have "of_int (2 ^ prec t - 1) * pow2 (emax t - int (prec t) + 1)
      < of_int (2 ^ prec t) * pow2 (emax t - int (prec t) + 1)"
    using pow2_pos [of "emax t - int (prec t) + 1"] by (simp only: mult_less_cancel_right_pos)
  then show ?thesis by (simp only: finfo_max_ulp pow2_grid_Suc [of "emax t" t])
qed

lemma finfo_max_pos: "0 < finfo_max t"
  by (cases t) (simp_all add: finfo_max_def pow2_pos)

lemma fround_on_grid:
  assumes "q = of_int m * ulp t \<bar>q\<bar>" "\<bar>q\<bar> \<le> finfo_max t"
  shows "fround t (Fin q) = Fin q"
proof -
  have "of_int (round_half_even (q / ulp t \<bar>q\<bar>)) * ulp t \<bar>q\<bar> = q"
    using assms(1) by (rule on_grid_fixed)
  moreover have "\<not> finfo_max t < q" "\<not> q < finfo_min t"
    using assms(2) unfolding finfo_min_def by linarith+
  ultimately show ?thesis by (simp add: Let_def)
qed

lemma fround_Fin:
  assumes "fround t (Fin q) = Fin r"
  shows "r = of_int (round_half_even (q / ulp t \<bar>q\<bar>)) * ulp t \<bar>q\<bar> \<and> \<bar>r\<bar> \<le> finfo_max t"
proof -
  let ?r = "of_int (round_half_even (q / ulp t \<bar>q\<bar>)) * ulp t \<bar>q\<bar>"
  have "\<not> finfo_max t < ?r \<and> \<not> ?r < finfo_min t \<and> r = ?r"
    using assms by (simp add: Let_def split: if_splits)
  then show ?thesis unfolding finfo_min_def by (simp add: abs_le_iff)
qed

lemma is_double_grid:
  assumes "is_double q"
  shows "q = of_int (round_half_even (q / ulp Float64 \<bar>q\<bar>)) * ulp Float64 \<bar>q\<bar>" "\<bar>q\<bar> \<le> finfo_max Float64"
proof -
  have "fround Float64 (Fin q) = Fin q" using assms by (simp only: is_double_def)
  then have "q = of_int (round_half_even (q / ulp Float64 \<bar>q\<bar>)) * ulp Float64 \<bar>q\<bar>
      \<and> \<bar>q\<bar> \<le> finfo_max Float64" by (rule fround_Fin)
  then show "q = of_int (round_half_even (q / ulp Float64 \<bar>q\<bar>)) * ulp Float64 \<bar>q\<bar>"
    and "\<bar>q\<bar> \<le> finfo_max Float64" by blast+
qed

lemma exponent_1024: "exponent Float64 1024 = 10"
  by (rule exponent_eqI) (simp_all add: pow2_def)

lemma div_exact:
  assumes d: "is_double q" and big: "\<not> \<bar>q\<bar> < 1024"
  shows "fround Float64 (Fin (q / 1024)) = Fin (q / 1024)"
proof -
  let ?E = "exponent Float64 \<bar>q\<bar>"
  obtain m where g: "q = of_int m * ulp Float64 \<bar>q\<bar>" using is_double_grid(1) [OF d] by blast
  have fin: "\<bar>q\<bar> \<le> finfo_max Float64" using d by (rule is_double_grid(2))
  have "exponent Float64 1024 \<le> ?E" using big by (intro exponent_mono) simp
  then have E10: "10 \<le> ?E" by (simp only: exponent_1024)
  have Emax: "?E \<le> emax Float64" by (rule exponent_bounds)
  have p10: "pow2 (?E - 10) * 1024 = pow2 ?E"
    using pow2_add [of "?E - 10" 10] by (simp add: pow2_def [of 10])
  have p11: "pow2 (?E - 10 + 1) * 1024 = pow2 (?E + 1)"
    using pow2_add [of "?E - 10 + 1" 10] by (simp add: pow2_def [of 10] add.commute)
  have "emin Float64 < ?E" using E10 by simp
  then have "pow2 ?E \<le> \<bar>q\<bar>" by (rule exponent_lower)
  then have lo: "pow2 (?E - 10) \<le> \<bar>q / 1024\<bar>" using p10 by simp
  have "\<bar>q\<bar> < pow2 (?E + 1)"
  proof (cases "?E < emax Float64")
    case True
    then show ?thesis by (rule exponent_upper)
  next
    case False
    with Emax have "?E = emax Float64" by simp
    then show ?thesis using fin finfo_max_lt [of Float64] by simp
  qed
  then have hi: "\<bar>q / 1024\<bar> < pow2 (?E - 10 + 1)" using p11 by simp
  have "exponent Float64 \<bar>q / 1024\<bar> = ?E - 10"
  proof (rule exponent_eqI)
    show "emin Float64 \<le> ?E - 10" using E10 by simp
    show "?E - 10 \<le> emax Float64" using Emax by simp
    show "?E - 10 = emin Float64 \<or> pow2 (?E - 10) \<le> \<bar>q / 1024\<bar>" using lo by simp
    show "\<bar>q / 1024\<bar> < pow2 (?E - 10 + 1) \<or> ?E - 10 = emax Float64" using hi by simp
  qed
  then have "ulp Float64 \<bar>q / 1024\<bar> = pow2 ((?E - int (prec Float64) + 1) - 10)"
    by (simp add: ulp_def)
  moreover have "pow2 ((?E - int (prec Float64) + 1) - 10) * 1024 = pow2 (?E - int (prec Float64) + 1)"
    using pow2_add [of "(?E - int (prec Float64) + 1) - 10" 10] by (simp add: pow2_def [of 10])
  ultimately have "ulp Float64 \<bar>q / 1024\<bar> * 1024 = ulp Float64 \<bar>q\<bar>"
    by (simp add: ulp_def)
  then have "q = of_int m * (ulp Float64 \<bar>q / 1024\<bar> * 1024)" using g by (simp only:)
  then have "q / 1024 = of_int m * ulp Float64 \<bar>q / 1024\<bar>" by simp
  moreover have "\<bar>q / 1024\<bar> \<le> finfo_max Float64" using fin by simp
  ultimately show ?thesis by (rule fround_on_grid)
qed

lemma int_exact:
  assumes "\<bar>i\<bar> \<le> 2 ^ 53"
  shows "fround Float64 (Fin (of_int i)) = Fin (of_int i)"
proof -
  let ?q = "rat_of_int i"
  let ?E = "exponent Float64 \<bar>?q\<bar>"
  have q53: "\<bar>?q\<bar> \<le> pow2 53"
  proof -
    have "rat_of_int \<bar>i\<bar> \<le> of_int (2 ^ 53)" using assms by (simp only: of_int_le_iff)
    then show ?thesis by (simp add: pow2_def)
  qed
  have E53: "?E \<le> 53"
  proof (rule ccontr)
    assume "\<not> ?E \<le> 53"
    then have a: "53 < ?E" by simp
    then have "emin Float64 < ?E" by simp
    then have "pow2 ?E \<le> \<bar>?q\<bar>" by (rule exponent_lower)
    moreover have "pow2 53 < pow2 ?E" using a by (rule pow2_strict_mono)
    ultimately show False using q53 by linarith
  qed
  have fin: "\<bar>?q\<bar> \<le> finfo_max Float64"
  proof -
    have "pow2 53 \<le> pow2 971" by (intro pow2_mono) simp
    moreover have "1 * pow2 971 \<le> of_int (2 ^ 53 - 1) * pow2 971"
      using pow2_pos [of 971] by (intro mult_right_mono) simp_all
    moreover have "finfo_max Float64 = of_int (2 ^ 53 - 1) * pow2 971"
      using finfo_max_ulp [of Float64] by simp
    ultimately show ?thesis using q53 by linarith
  qed
  have "\<exists>m. ?q = of_int m * ulp Float64 \<bar>?q\<bar>"
  proof (cases "?E = 53")
    case True
    then have "emin Float64 < ?E" by simp
    then have "pow2 ?E \<le> \<bar>?q\<bar>" by (rule exponent_lower)
    with q53 True have "\<bar>?q\<bar> = pow2 53" by simp
    then have "rat_of_int \<bar>i\<bar> = of_int (2 ^ 53)" by (simp add: pow2_def)
    then have "\<bar>i\<bar> = 2 ^ 53" by (simp only: of_int_eq_iff)
    then have "even \<bar>i\<bar>" by simp
    then have "even i" by simp
    then have "i = (i div 2) * 2" by simp
    then have "?q = of_int (i div 2) * 2" by (metis of_int_mult of_int_numeral)
    moreover have "ulp Float64 \<bar>?q\<bar> = 2" using True by (simp add: ulp_def pow2_def)
    ultimately show ?thesis by metis
  next
    case False
    with E53 have le: "?E \<le> 52" by simp
    have "pow2 (52 - ?E) * pow2 (?E - 52) = 1"
      using pow2_add [of "52 - ?E" "?E - 52"] by (simp add: pow2_0)
    moreover have "pow2 (52 - ?E) = of_int (2 ^ nat (52 - ?E))"
      using le by (simp add: pow2_def)
    ultimately have "of_int (2 ^ nat (52 - ?E)) * ulp Float64 \<bar>?q\<bar> = 1"
      by (simp add: ulp_def)
    then have "?q = of_int i * (of_int (2 ^ nat (52 - ?E)) * ulp Float64 \<bar>?q\<bar>)" by simp
    then have "?q = of_int (i * 2 ^ nat (52 - ?E)) * ulp Float64 \<bar>?q\<bar>"
      by (simp only: of_int_mult mult.assoc)
    then show ?thesis by blast
  qed
  then obtain m where "?q = of_int m * ulp Float64 \<bar>?q\<bar>" by blast
  then show ?thesis using fin by (rule fround_on_grid)
qed

section \<open>Properties of size_of_fmt\<close>

lemma is_double_div:
  assumes "is_double q" "\<not> \<bar>q\<bar> < 1024"
  shows "fdiv_1024 (Fin q) = Fin (q / 1024)" "is_double (q / 1024)"
  using div_exact [OF assms] by (simp_all only: fdiv_1024.simps is_double_def)

lemma loop_select:
  "is_double q \<Longrightarrow> k < length us \<Longrightarrow> \<bar>q\<bar> / 1024 ^ k < 1024 \<Longrightarrow> (\<forall>j<k. \<not> \<bar>q\<bar> / 1024 ^ j < 1024) \<Longrightarrow>
   size_of_fmt_loop us (FloatN (Fin q)) suffix = Inr (fmt_1f (q / 1024 ^ k) @ us ! k @ suffix)"
proof (induction us arbitrary: q k)
  case Nil
  then show ?case by simp
next
  case (Cons u us)
  show ?case
  proof (cases k)
    case 0
    with Cons.prems show ?thesis by simp
  next
    case (Suc k')
    have n0: "\<not> \<bar>q\<bar> < 1024" using Cons.prems(4) Suc by force
    note d = is_double_div [OF Cons.prems(1) n0]
    have a: "\<bar>q / 1024\<bar> / 1024 ^ k' < 1024"
      using Cons.prems(3) Suc by simp
    have b: "\<forall>j<k'. \<not> \<bar>q / 1024\<bar> / 1024 ^ j < 1024"
    proof (intro allI impI)
      fix j assume "j < k'"
      then have "\<not> \<bar>q\<bar> / 1024 ^ Suc j < 1024" using Cons.prems(4) Suc by auto
      then show "\<not> \<bar>q / 1024\<bar> / 1024 ^ j < 1024" by simp
    qed
    have "size_of_fmt_loop us (FloatN (Fin (q / 1024))) suffix
        = Inr (fmt_1f (q / 1024 / 1024 ^ k') @ us ! k' @ suffix)"
      using d(2) Cons.prems(2) Suc a b by (intro Cons.IH) auto
    with n0 Suc d(1) show ?thesis by (simp del: fdiv_1024.simps)
  qed
qed

lemma loop_fallback:
  "is_double q \<Longrightarrow> (\<forall>j<length us. \<not> \<bar>q\<bar> / 1024 ^ j < 1024) \<Longrightarrow>
   size_of_fmt_loop us (FloatN (Fin q)) suffix = Inr (fmt_1f (q / 1024 ^ length us) @ ''Yi'' @ suffix)"
proof (induction us arbitrary: q)
  case Nil
  then show ?case by simp
next
  case (Cons u us)
  have n0: "\<not> \<bar>q\<bar> < 1024" using Cons.prems(2) by force
  note d = is_double_div [OF Cons.prems(1) n0]
  have b: "\<forall>j<length us. \<not> \<bar>q / 1024\<bar> / 1024 ^ j < 1024"
  proof (intro allI impI)
    fix j assume "j < length us"
    then have "\<not> \<bar>q\<bar> / 1024 ^ Suc j < 1024" using Cons.prems(2) by auto
    then show "\<not> \<bar>q / 1024\<bar> / 1024 ^ j < 1024" by simp
  qed
  show ?case using n0 d(1) Cons.IH [OF d(2) b] by (simp del: fdiv_1024.simps)
qed

lemma float_of_int_exact:
  assumes "\<bar>i\<bar> \<le> 2 ^ 53"
  shows "float_of_int i = Inr (Fin (of_int i))" "is_double (of_int i)"
  using int_exact [OF assms] by (simp_all only: float_of_int_def is_double_def scalar.case)

lemma grid_1024: "1024 = of_int (2 ^ 52) * ulp Float64 1024"
  by (simp add: ulp_def exponent_1024 pow2_def)

lemma float_of_int_cases:
  "float_of_int i = Inl OverflowError \<or>
   (\<exists>r. float_of_int i = Inr (Fin r) \<and> is_double r \<and> (\<bar>i\<bar> < 1024 \<longleftrightarrow> \<bar>r\<bar> < 1024))"
proof (cases "fround Float64 (Fin (of_int i))")
  case (Fin r)
  have "fround Float64 (fround Float64 (Fin (of_int i))) = fround Float64 (Fin (of_int i))"
    by (rule fround_idem)
  then have d: "is_double r" by (simp only: Fin is_double_def)
  have r: "r = of_int (round_half_even (of_int i / ulp Float64 \<bar>of_int i\<bar>)) * ulp Float64 \<bar>of_int i\<bar>"
    using fround_Fin [OF Fin] by blast
  have "\<bar>i\<bar> < 1024 \<longleftrightarrow> \<bar>r\<bar> < 1024"
  proof (cases "\<bar>i\<bar> < 1024")
    case True
    then have "\<bar>i\<bar> \<le> 2 ^ 53" by simp
    then have "fround Float64 (Fin (of_int i)) = Fin (of_int i)" by (rule int_exact)
    with Fin have "r = of_int i" by simp
    with True show ?thesis by simp
  next
    case False
    show ?thesis
    proof (cases "0 \<le> i")
      case True
      with False have ge: "(1024::rat) \<le> of_int i" by simp
      have "1024 \<le> r" unfolding r by (rule rnd_ge [OF grid_1024 _ ge]) simp
      with False show ?thesis by simp
    next
      case neg: False
      with False have le: "rat_of_int i \<le> - 1024" by simp
      have "r \<le> - 1024" unfolding r by (rule rnd_le [OF grid_1024 _ le]) simp
      with False show ?thesis by simp
    qed
  qed
  with d Fin show ?thesis by (simp add: float_of_int_def)
qed (simp_all add: float_of_int_def)

lemma loop_int:
  "size_of_fmt_loop (u # us) (IntN i) suffix =
     (case float_of_int i of Inl e \<Rightarrow> Inl e | Inr x \<Rightarrow> size_of_fmt_loop (u # us) (FloatN x) suffix)"
  using float_of_int_cases [of i] by (auto simp del: fdiv_1024.simps)

lemma size_of_fmt_int:
  "size_of_fmt (IntN i) suffix =
     (case float_of_int i of Inl e \<Rightarrow> Inl e | Inr x \<Rightarrow> size_of_fmt (FloatN x) suffix)"
  unfolding size_of_fmt_def units_def by (rule loop_int)

lemma exact_value_float:
  assumes "exact_value num = Some q"
  shows "is_double q \<and> size_of_fmt num suffix = size_of_fmt (FloatN (Fin q)) suffix"
proof (cases num)
  case (IntN i)
  with assms have i: "\<bar>i\<bar> \<le> 2 ^ 53" "q = of_int i" by (simp_all split: if_splits)
  show ?thesis
    using float_of_int_exact [OF i(1)] i(2) IntN by (simp add: size_of_fmt_int)
next
  case (FloatN x)
  with assms show ?thesis by (cases x) (simp_all split: if_splits)
next
  case NegZeroN
  with assms show ?thesis by simp
qed

lemma size_of_fmt_select:
  assumes "exact_value num = Some q" "k < 8" "\<bar>q\<bar> / 1024 ^ k < 1024" "\<forall>j<k. \<not> \<bar>q\<bar> / 1024 ^ j < 1024"
  shows "size_of_fmt num suffix = Inr (fmt_1f (q / 1024 ^ k) @ units ! k @ suffix)"
proof -
  have l: "k < length units" using assms(2) by (simp add: units_def)
  have "size_of_fmt (FloatN (Fin q)) suffix = Inr (fmt_1f (q / 1024 ^ k) @ units ! k @ suffix)"
    unfolding size_of_fmt_def
    using exact_value_float [OF assms(1)] l assms(3,4) by (intro loop_select) simp_all
  then show ?thesis using exact_value_float [OF assms(1)] by simp
qed

lemma size_of_fmt_fallback:
  assumes "exact_value num = Some q" "\<forall>j<8. \<not> \<bar>q\<bar> / 1024 ^ j < 1024"
  shows "size_of_fmt num suffix = Inr (fmt_1f (q / 1024 ^ 8) @ ''Yi'' @ suffix)"
proof -
  have l: "length units = 8" by (simp add: units_def)
  have "size_of_fmt (FloatN (Fin q)) suffix = Inr (fmt_1f (q / 1024 ^ length units) @ ''Yi'' @ suffix)"
    unfolding size_of_fmt_def
    using exact_value_float [OF assms(1)] assms(2) l by (intro loop_fallback) simp_all
  then show ?thesis using exact_value_float [OF assms(1)] l by simp
qed

lemma size_of_fmt_special:
  "size_of_fmt (FloatN NaN) suffix = Inr (''nanYi'' @ suffix)"
  "size_of_fmt (FloatN PosInf) suffix = Inr (''infYi'' @ suffix)"
  "size_of_fmt (FloatN NegInf) suffix = Inr (''-infYi'' @ suffix)"
  "size_of_fmt NegZeroN suffix = Inr (''-0.0'' @ suffix)"
  by (simp_all add: size_of_fmt_def units_def)

lemma digits_small: "n < 10 \<Longrightarrow> digits n = [''0123456789'' ! n]"
  by (simp add: digits.simps)

lemma digits_large: "10 \<le> n \<Longrightarrow> digits n = digits (n div 10) @ [''0123456789'' ! (n mod 10)]"
  by (subst digits.simps) simp

lemma floor_rat_numeral_divide: "\<lfloor>(numeral a / numeral b :: rat)\<rfloor> = numeral a div numeral b"
  by (metis floor_divide_of_int_eq of_int_numeral)

lemmas fmt_1f_eval = fmt_1f_def round_half_even_def Let_def digits_small digits_large
  floor_rat_numeral_divide

lemma finfo_max64_ge: "\<bar>r\<bar> \<le> pow2 1023 \<Longrightarrow> \<bar>r\<bar> \<le> finfo_max Float64"
proof -
  assume a: "\<bar>r\<bar> \<le> pow2 1023"
  have "pow2 1023 = of_int (2 ^ 52) * pow2 971"
    using pow2_grid [of 1023 Float64] by simp
  moreover have "of_int (2 ^ 52) * pow2 971 \<le> of_int (2 ^ 53 - 1) * pow2 971"
    using pow2_pos [of 971] by (intro mult_right_mono) simp_all
  moreover have "finfo_max Float64 = of_int (2 ^ 53 - 1) * pow2 971"
    using finfo_max_ulp [of Float64] by simp
  ultimately show ?thesis using a by linarith
qed

lemma fround_eqI:
  assumes "emin t \<le> k" "k \<le> emax t" "k = emin t \<or> pow2 k \<le> \<bar>q\<bar>" "\<bar>q\<bar> < pow2 (k + 1) \<or> k = emax t"
    and "round_half_even (q / pow2 (k - int (prec t) + 1)) = n"
    and "r = of_int n * pow2 (k - int (prec t) + 1)"
    and "\<bar>r\<bar> \<le> finfo_max t"
  shows "fround t (Fin q) = Fin r"
proof -
  have "exponent t \<bar>q\<bar> = k" using assms(1-4) by (rule exponent_eqI)
  then have "ulp t \<bar>q\<bar> = pow2 (k - int (prec t) + 1)" by (simp add: ulp_def)
  moreover have "\<not> finfo_max t < r" "\<not> r < finfo_min t"
    using assms(7) unfolding finfo_min_def by linarith+
  ultimately show ?thesis using assms(5,6) by (simp add: Let_def)
qed

lemma size_of_fmt_examples:
  "size_of_fmt (IntN 0) ''B'' = Inr ''0.0B''"
  "size_of_fmt (IntN 1024) ''B'' = Inr ''1.0KiB''"
  "size_of_fmt (IntN 1023) ''B'' = Inr ''1023.0B''"
proof -
  show "size_of_fmt (IntN 0) ''B'' = Inr ''0.0B''"
    using size_of_fmt_select [of "IntN 0" 0 0 "''B''"] by (simp add: units_def fmt_1f_eval)
  show "size_of_fmt (IntN 1024) ''B'' = Inr ''1.0KiB''"
    using size_of_fmt_select [of "IntN 1024" 1024 1 "''B''"] by (simp add: units_def fmt_1f_eval)
  show "size_of_fmt (IntN 1023) ''B'' = Inr ''1023.0B''"
    using size_of_fmt_select [of "IntN 1023" 1023 0 "''B''"] by (simp add: units_def fmt_1f_eval)
qed

text \<open>
  Claim C8, as amended. With the suffix \<open>B\<close>, \<open>size_of_fmt\<close> returns \<open>0.0B\<close> for 0, \<open>1.0KiB\<close>
  for 1024 and \<open>1023.0B\<close> for 1023. In general, for a finite float and for an int of
  magnitude at most \<open>2 ^ 53\<close>, it takes the first, that is the smallest, prefix of none, Ki,
  Mi, Gi, Ti, Pi, Ei, Zi for which the magnitude divided by the matching power of 1024 is
  below 1024, and prints the scaled number with one decimal place, the prefix and the
  suffix; when no prefix of the list does, it prints the number divided by \<open>1024 ^ 8\<close> with
  the prefix Yi. An int of any magnitude is formatted as the double that \<open>float\<close> makes of
  it, and the call raises OverflowError when \<open>float\<close> does.
\<close>

theorem size_of_fmt_prefix:
  "size_of_fmt (IntN 0) ''B'' = Inr ''0.0B'' \<and> size_of_fmt (IntN 1024) ''B'' = Inr ''1.0KiB''
   \<and> size_of_fmt (IntN 1023) ''B'' = Inr ''1023.0B''
   \<and> (exact_value num = Some q \<longrightarrow>
         (\<forall>k<8. \<bar>q\<bar> / 1024 ^ k < 1024 \<and> (\<forall>j<k. \<not> \<bar>q\<bar> / 1024 ^ j < 1024) \<longrightarrow>
            size_of_fmt num suffix = Inr (fmt_1f (q / 1024 ^ k) @ units ! k @ suffix))
       \<and> ((\<forall>j<8. \<not> \<bar>q\<bar> / 1024 ^ j < 1024) \<longrightarrow>
            size_of_fmt num suffix = Inr (fmt_1f (q / 1024 ^ 8) @ ''Yi'' @ suffix)))
   \<and> size_of_fmt (IntN i) suffix =
        (case float_of_int i of Inl e \<Rightarrow> Inl e | Inr x \<Rightarrow> size_of_fmt (FloatN x) suffix)"
proof (intro conjI impI allI)
  fix k :: nat
  assume "exact_value num = Some q" "k < 8"
    "\<bar>q\<bar> / 1024 ^ k < 1024 \<and> (\<forall>j<k. \<not> \<bar>q\<bar> / 1024 ^ j < 1024)"
  then show "size_of_fmt num suffix = Inr (fmt_1f (q / 1024 ^ k) @ units ! k @ suffix)"
    by (intro size_of_fmt_select) simp_all
next
  assume "exact_value num = Some q" "\<forall>j<8. \<not> \<bar>q\<bar> / 1024 ^ j < 1024"
  then show "size_of_fmt num suffix = Inr (fmt_1f (q / 1024 ^ 8) @ ''Yi'' @ suffix)"
    by (rule size_of_fmt_fallback)
qed (rule size_of_fmt_examples size_of_fmt_int)+

lemma is_double_1024_6: "is_double (1024 ^ 6)"
proof -
  have "fround Float64 (Fin (1024 ^ 6)) = Fin (1024 ^ 6)"
  proof (rule fround_eqI [where k = 60 and n = "2 ^ 52"])
    show "\<bar>1024 ^ 6\<bar> \<le> finfo_max Float64"
    proof (rule finfo_max64_ge)
      have "pow2 60 \<le> pow2 1023" by (intro pow2_mono) simp
      then show "\<bar>1024 ^ 6\<bar> \<le> pow2 1023" by (simp add: pow2_def [of 60])
    qed
  qed (simp_all add: pow2_def round_half_even_def Let_def floor_rat_numeral_divide)
  then show ?thesis by (simp only: is_double_def)
qed

lemma is_double_1024_9: "is_double (1024 ^ 9)"
proof -
  have "fround Float64 (Fin (1024 ^ 9)) = Fin (1024 ^ 9)"
  proof (rule fround_eqI [where k = 90 and n = "2 ^ 52"])
    show "\<bar>1024 ^ 9\<bar> \<le> finfo_max Float64"
    proof (rule finfo_max64_ge)
      have "pow2 90 \<le> pow2 1023" by (intro pow2_mono) simp
      then show "\<bar>1024 ^ 9\<bar> \<le> pow2 1023" by (simp add: pow2_def [of 90])
    qed
  qed (simp_all add: pow2_def round_half_even_def Let_def floor_rat_numeral_divide)
  then show ?thesis by (simp only: is_double_def)
qed

lemma float_of_int_1024_6: "float_of_int (1024 ^ 6 - 1) = Inr (Fin (1024 ^ 6))"
proof -
  have "fround Float64 (Fin (1024 ^ 6 - 1)) = Fin (1024 ^ 6)"
  proof (rule fround_eqI [where k = 59 and n = "2 ^ 53"])
    show "\<bar>1024 ^ 6\<bar> \<le> finfo_max Float64"
    proof (rule finfo_max64_ge)
      have "pow2 60 \<le> pow2 1023" by (intro pow2_mono) simp
      then show "\<bar>1024 ^ 6\<bar> \<le> pow2 1023" by (simp add: pow2_def [of 60])
    qed
  qed (simp_all add: pow2_def round_half_even_def Let_def floor_rat_numeral_divide)
  then show ?thesis by (simp add: float_of_int_def)
qed

theorem size_of_fmt_prefix_witness:
  "size_of_fmt (IntN 0) ''B'' = Inr ''0.0B'' \<and> size_of_fmt (IntN 1024) ''B'' = Inr ''1.0KiB''
   \<and> size_of_fmt (IntN 1023) ''B'' = Inr ''1023.0B''
   \<and> size_of_fmt (IntN 5000000) ''B'' = Inr ''4.8MiB''
   \<and> size_of_fmt (FloatN (Fin (1024 ^ 9))) ''B'' = Inr ''1024.0YiB''
   \<and> size_of_fmt (IntN (1024 ^ 6 - 1)) ''B'' = Inr ''1.0EiB''"
proof -
  note g = size_of_fmt_prefix [THEN conjunct2, THEN conjunct2, THEN conjunct2]
  note sel = g [THEN conjunct1, THEN mp, THEN conjunct1, THEN spec, THEN mp, THEN mp]
  note fb = g [THEN conjunct1, THEN mp, THEN conjunct2, THEN mp]
  have a: "\<bar>5000000\<bar> / 1024 ^ 2 < (1024::rat) \<and> (\<forall>j<2. \<not> \<bar>5000000\<bar> / 1024 ^ j < (1024::rat))"
    by (simp add: less_Suc_eq numeral_2_eq_2)
  have b: "\<forall>j<8. \<not> \<bar>1024 ^ 9\<bar> / 1024 ^ j < (1024::rat)"
    by (simp add: less_Suc_eq eval_nat_numeral)
  have c: "fmt_1f (5000000 / 1024 ^ 2) @ units ! 2 @ ''B'' = ''4.8MiB''"
    by (simp add: units_def fmt_1f_eval)
  have d: "fmt_1f (1024 ^ 9 / 1024 ^ 8) @ ''Yi'' @ ''B'' = ''1024.0YiB''"
    by (simp add: fmt_1f_eval)
  have e: "\<bar>1024 ^ 6\<bar> / 1024 ^ 6 < (1024::rat) \<and> (\<forall>j<6. \<not> \<bar>1024 ^ 6\<bar> / 1024 ^ j < (1024::rat))"
    by (simp add: less_Suc_eq eval_nat_numeral)
  have f: "fmt_1f (1024 ^ 6 / 1024 ^ 6) @ units ! 6 @ ''B'' = ''1.0EiB''"
    by (simp add: units_def fmt_1f_eval)
  have x1: "exact_value (IntN 5000000) = Some 5000000" by simp
  have x2: "exact_value (FloatN (Fin (1024 ^ 9))) = Some (1024 ^ 9)"
    using is_double_1024_9 by (simp only: exact_value.simps if_True)
  have x3: "exact_value (FloatN (Fin (1024 ^ 6))) = Some (1024 ^ 6)"
    using is_double_1024_6 by (simp only: exact_value.simps if_True)
  have "size_of_fmt (IntN 5000000) ''B'' = Inr (fmt_1f (5000000 / 1024 ^ 2) @ units ! 2 @ ''B'')"
    by (rule sel [OF x1 _ a]) simp
  then have 1: "size_of_fmt (IntN 5000000) ''B'' = Inr ''4.8MiB''" by (simp only: c)
  have "size_of_fmt (FloatN (Fin (1024 ^ 9))) ''B'' = Inr (fmt_1f (1024 ^ 9 / 1024 ^ 8) @ ''Yi'' @ ''B'')"
    by (rule fb [OF x2 b])
  then have 2: "size_of_fmt (FloatN (Fin (1024 ^ 9))) ''B'' = Inr ''1024.0YiB''" by (simp only: d)
  have "size_of_fmt (FloatN (Fin (1024 ^ 6))) ''B'' = Inr (fmt_1f (1024 ^ 6 / 1024 ^ 6) @ units ! 6 @ ''B'')"
    by (rule sel [OF x3 _ e]) simp
  then have "size_of_fmt (FloatN (Fin (1024 ^ 6))) ''B'' = Inr ''1.0EiB''" by (simp only: f)
  moreover have "size_of_fmt (IntN (1024 ^ 6 - 1)) ''B'' =
      (case float_of_int (1024 ^ 6 - 1) of Inl e \<Rightarrow> Inl e | Inr x \<Rightarrow> size_of_fmt (FloatN x) ''B'')"
    by (rule g [THEN conjunct2])
  ultimately have 3: "size_of_fmt (IntN (1024 ^ 6 - 1)) ''B'' = Inr ''1.0EiB''"
    by (simp only: float_of_int_1024_6 sum.case)
  have 0: "size_of_fmt (IntN 0) ''B'' = Inr ''0.0B'' \<and> size_of_fmt (IntN 1024) ''B'' = Inr ''1.0KiB''
   \<and> size_of_fmt (IntN 1023) ''B'' = Inr ''1023.0B''"
    using size_of_fmt_prefix [of "IntN 0" 0 "''B''" 0] by (elim conjE) (intro conjI)
  show ?thesis using 0 1 2 3 by (elim conjE) (intro conjI)
qed

text \<open>
  Claim C8 as stated asks for the largest prefix whose scaled magnitude is below 1024. For
  the input 0 the prefix Zi has a scaled magnitude below 1024 and is larger than the empty
  prefix, and the result is \<open>0.0B\<close>, not \<open>0.0ZiB\<close>.
\<close>

theorem size_of_fmt_largest_counterexample:
  "\<bar>0\<bar> / 1024 ^ 7 < (1024::rat) \<and> size_of_fmt (IntN 0) ''B'' = Inr ''0.0B''
   \<and> ''0.0B'' \<noteq> fmt_1f (0 / 1024 ^ 7) @ units ! 7 @ ''B''"
  using size_of_fmt_examples(1) by (simp add: units_def fmt_1f_eval)

section \<open>Floating-point columns\<close>

lemma min2_gt: "a \<noteq> NaN \<Longrightarrow> c \<noteq> NaN \<Longrightarrow>
  min2 a c \<noteq> NaN \<and> (gt (min2 a c) (Fin b) \<longleftrightarrow> gt a (Fin b) \<and> gt c (Fin b))"
  by (cases a; cases c) (auto simp: min2_def lt_def)

lemma max2_lt: "a \<noteq> NaN \<Longrightarrow> c \<noteq> NaN \<Longrightarrow>
  max2 a c \<noteq> NaN \<and> (lt (max2 a c) (Fin b) \<longleftrightarrow> lt a (Fin b) \<and> lt c (Fin b))"
  by (cases a; cases c) (auto simp: max2_def lt_def)

lemma foldl_min2_gt: "y \<noteq> NaN \<Longrightarrow> \<forall>x\<in>set ys. x \<noteq> NaN \<Longrightarrow>
  gt (foldl min2 y ys) (Fin b) \<longleftrightarrow> gt y (Fin b) \<and> (\<forall>x\<in>set ys. gt x (Fin b))"
proof (induction ys arbitrary: y)
  case Nil
  then show ?case by simp
next
  case (Cons x ys)
  have m: "min2 y x \<noteq> NaN" "gt (min2 y x) (Fin b) \<longleftrightarrow> gt y (Fin b) \<and> gt x (Fin b)"
    using min2_gt [of y x b] Cons.prems by simp_all
  show ?case using Cons.IH [OF m(1)] Cons.prems(2) m(2) by auto
qed

lemma foldl_max2_lt: "y \<noteq> NaN \<Longrightarrow> \<forall>x\<in>set ys. x \<noteq> NaN \<Longrightarrow>
  lt (foldl max2 y ys) (Fin b) \<longleftrightarrow> lt y (Fin b) \<and> (\<forall>x\<in>set ys. lt x (Fin b))"
proof (induction ys arbitrary: y)
  case Nil
  then show ?case by simp
next
  case (Cons x ys)
  have m: "max2 y x \<noteq> NaN" "lt (max2 y x) (Fin b) \<longleftrightarrow> lt y (Fin b) \<and> lt x (Fin b)"
    using max2_lt [of y x b] Cons.prems by simp_all
  show ?case using Cons.IH [OF m(1)] Cons.prems(2) m(2) by auto
qed

lemma nanmin_gt: "gt (nanmin vs) (Fin b) \<longleftrightarrow>
  (\<exists>v\<in>set vs. v \<noteq> NaN) \<and> (\<forall>v\<in>set vs. v \<noteq> NaN \<longrightarrow> gt v (Fin b))"
proof (cases "filter (\<lambda>x. x \<noteq> NaN) vs")
  case Nil
  then have "\<forall>v\<in>set vs. v = NaN" by (auto simp: filter_empty_conv)
  with Nil show ?thesis by (simp add: nanmin_def)
next
  case (Cons y ys)
  have s: "set (y # ys) = {v \<in> set vs. v \<noteq> NaN}"
    using Cons by (metis set_filter)
  then have "y \<noteq> NaN" "\<forall>x\<in>set ys. x \<noteq> NaN" by auto
  then have "gt (foldl min2 y ys) (Fin b) \<longleftrightarrow> (\<forall>x\<in>set (y # ys). gt x (Fin b))"
    by (simp add: foldl_min2_gt)
  moreover have "\<exists>v\<in>set vs. v \<noteq> NaN" using s by auto
  ultimately show ?thesis using Cons s by (auto simp: nanmin_def)
qed

lemma nanmax_lt: "lt (nanmax vs) (Fin b) \<longleftrightarrow>
  (\<exists>v\<in>set vs. v \<noteq> NaN) \<and> (\<forall>v\<in>set vs. v \<noteq> NaN \<longrightarrow> lt v (Fin b))"
proof (cases "filter (\<lambda>x. x \<noteq> NaN) vs")
  case Nil
  then have "\<forall>v\<in>set vs. v = NaN" by (auto simp: filter_empty_conv)
  with Nil show ?thesis by (simp add: nanmax_def lt_def)
next
  case (Cons y ys)
  have s: "set (y # ys) = {v \<in> set vs. v \<noteq> NaN}"
    using Cons by (metis set_filter)
  then have "y \<noteq> NaN" "\<forall>x\<in>set ys. x \<noteq> NaN" by auto
  then have "lt (foldl max2 y ys) (Fin b) \<longleftrightarrow> (\<forall>x\<in>set (y # ys). lt x (Fin b))"
    by (simp add: foldl_max2_lt)
  moreover have "\<exists>v\<in>set vs. v \<noteq> NaN" using s by auto
  ultimately show ?thesis using Cons s by (auto simp: nanmax_def)
qed

lemma in_range_iff: "v \<noteq> NaN \<Longrightarrow>
  in_range t v \<longleftrightarrow> gt v (Fin (finfo_min t)) \<and> lt v (Fin (finfo_max t))"
  by (cases v) (auto simp: lt_def)

lemma strictly_inside_iff: "strictly_inside t vs \<longleftrightarrow> range_within t vs"
  unfolding strictly_inside_def range_within_def nanmin_gt nanmax_lt
  using in_range_iff by blast

lemma reduce_col_FloatS_choice:
  "reduce_col (FloatS t vs) =
     (let T = (if range_within Float16 vs then Float16
               else if range_within Float32 vs then Float32 else Float64)
      in FloatS T (map (fround T) vs))"
  using strictly_inside_iff [of Float16 vs] strictly_inside_iff [of Float32 vs]
  by (simp add: reduce_col_FloatS strictly_inside_def)

text \<open>
  Claim C5. In a frame with distinct column names, a non-empty floating-point column comes
  out of \<open>reduce_dtypes\<close> as float16 when the range of its values lies strictly inside the
  range of float16, otherwise as float32 when it lies strictly inside the range of float32,
  and otherwise as float64, whatever the values are; its values are converted to that
  type. The range lies strictly inside when some value is not NaN and every such value is
  finite and strictly between the minimum and the maximum of the type.
\<close>

theorem reduce_dtypes_float_choice:
  assumes "distinct (map fst (columns df))" and "(n, FloatS t vs) \<in> set (columns df)"
    and "vs \<noteq> []"
  shows "\<exists>df' out. reduce_dtypes df verbose = Inr (df', out) \<and>
     getitem df' n =
       Inr (let T = (if range_within Float16 vs then Float16
                     else if range_within Float32 vs then Float32 else Float64)
            in FloatS T (map (fround T) vs))"
proof -
  have "getitem (reduced df) n = Inr (reduce_col (FloatS t vs))"
    using assms(1,2) by (rule getitem_reduced)
  then show ?thesis
    unfolding reduce_dtypes_distinct [OF assms(1)] reduce_col_FloatS_choice by blast
qed

theorem reduce_dtypes_float_choice_witness:
  "\<exists>df' out. reduce_dtypes \<lparr>index = [0, 1, 2], columns = [(''x'', FloatS Float64 [Fin 70000, NaN, Fin (3 / 2)])]\<rparr> False = Inr (df', out) \<and>
     getitem df' ''x'' = Inr (FloatS Float32 [Fin 70000, NaN, Fin (3 / 2)])"
proof -
  have a: "\<not> range_within Float16 [Fin 70000, NaN, Fin (3 / 2)]"
    by (simp add: range_within_def finfo_max_def finfo_min_def pow2_def)
  have b: "range_within Float32 [Fin 70000, NaN, Fin (3 / 2)]"
    by (simp add: range_within_def finfo_max_def finfo_min_def pow2_def)
  have c1: "fround Float32 (Fin 70000) = Fin 70000"
    by (rule fround_eqI [where k = 16 and n = 8960000])
      (simp_all add: pow2_def finfo_max_def round_half_even_def Let_def)
  have c2: "fround Float32 (Fin (3 / 2)) = Fin (3 / 2)"
    by (rule fround_eqI [where k = 0 and n = 12582912])
      (simp_all add: pow2_def finfo_max_def round_half_even_def Let_def)
  note c = c1 c2
  show ?thesis
    using reduce_dtypes_float_choice
      [of "\<lparr>index = [0, 1, 2], columns = [(''x'', FloatS Float64 [Fin 70000, NaN, Fin (3 / 2)])]\<rparr>"
          "''x''" Float64 "[Fin 70000, NaN, Fin (3 / 2)]" False]
    by (simp add: a b c del: fround.simps(1))
qed

section \<open>Applying reduce_dtypes to its own result\<close>

lemma fround_NaN_iff: "fround T v = NaN \<longleftrightarrow> v = NaN"
  by (cases v) (simp_all add: Let_def)

lemma grid_16_32: "finfo_max Float16 = of_int (65504 * 2 ^ 8) * ulp Float32 (finfo_max Float16)"
proof -
  have "exponent Float32 (finfo_max Float16) = 15"
    by (rule exponent_eqI) (simp_all add: finfo_max_def pow2_def)
  then show ?thesis by (simp add: ulp_def) (simp add: finfo_max_def pow2_def)
qed

lemma grid_16_64: "finfo_max Float16 = of_int (65504 * 2 ^ 37) * ulp Float64 (finfo_max Float16)"
proof -
  have "exponent Float64 (finfo_max Float16) = 15"
    by (rule exponent_eqI) (simp_all add: finfo_max_def pow2_def)
  then show ?thesis by (simp add: ulp_def) (simp add: finfo_max_def pow2_def)
qed

lemma grid_32_64: "finfo_max Float32 = of_int ((2 ^ 24 - 1) * 2 ^ 29) * ulp Float64 (finfo_max Float32)"
proof -
  have "exponent Float64 (finfo_max Float32) = 127"
    by (rule exponent_eqI) (simp_all add: finfo_max_def pow2_def)
  then show ?thesis by (simp add: ulp_def) (simp add: finfo_max_def pow2_def)
qed

lemma not_in_range_fround:
  assumes g: "finfo_max k = of_int m * ulp T (finfo_max k)" and v: "v \<noteq> NaN" "\<not> in_range k v"
  shows "\<not> in_range k (fround T v)"
proof (cases v)
  case (Fin q)
  let ?r = "of_int (round_half_even (q / ulp T \<bar>q\<bar>)) * ulp T \<bar>q\<bar>"
  from v(2) Fin consider (hi) "finfo_max k \<le> q" | (lo) "q \<le> - finfo_max k"
    by (auto simp: finfo_min_def not_less)
  then have "finfo_max k \<le> ?r \<or> ?r \<le> - finfo_max k"
  proof cases
    case hi
    have "finfo_max k \<le> ?r" using g finfo_max_pos hi by (rule rnd_ge)
    then show ?thesis by simp
  next
    case lo
    have "?r \<le> - finfo_max k" using g finfo_max_pos lo by (rule rnd_le)
    then show ?thesis by simp
  qed
  then show ?thesis using Fin by (auto simp: Let_def finfo_min_def)
qed (use v in simp_all)

lemma range_within_fround:
  assumes g: "finfo_max k = of_int m * ulp T (finfo_max k)" and n: "\<not> range_within k vs"
  shows "\<not> range_within k (map (fround T) vs)"
proof (cases "\<exists>v\<in>set vs. v \<noteq> NaN")
  case False
  then have "\<forall>v\<in>set (map (fround T) vs). v = NaN" by (auto simp: fround_NaN_iff)
  then show ?thesis by (simp add: range_within_def)
next
  case True
  with n obtain v where v: "v \<in> set vs" "v \<noteq> NaN" "\<not> in_range k v"
    by (auto simp: range_within_def)
  have "fround T v \<in> set (map (fround T) vs)" using v(1) by simp
  moreover have "fround T v \<noteq> NaN" using v(2) by (simp add: fround_NaN_iff)
  moreover have "\<not> in_range k (fround T v)" using g v(2,3) by (rule not_in_range_fround)
  ultimately show ?thesis unfolding range_within_def by blast
qed

lemma map_fround_idem: "map (fround T) (map (fround T) vs) = map (fround T) vs"
  by (simp add: fround_idem)

lemma reduce_col_twice_FloatS:
  "reduce_col (reduce_col (FloatS t vs)) = reduce_col (FloatS t vs)
     \<longleftrightarrow> stable_col (reduce_col (FloatS t vs))"
proof -
  consider (a) "range_within Float16 vs"
    | (b) "\<not> range_within Float16 vs" "range_within Float32 vs"
    | (c) "\<not> range_within Float16 vs" "\<not> range_within Float32 vs"
    by blast
  then show ?thesis
  proof cases
    case a
    let ?ws = "map (fround Float16) vs"
    have 1: "reduce_col (FloatS t vs) = FloatS Float16 ?ws"
      using a by (simp add: reduce_col_FloatS_choice)
    have "reduce_col (FloatS Float16 ?ws) = FloatS Float16 ?ws \<longleftrightarrow> range_within Float16 ?ws"
      unfolding reduce_col_FloatS_choice [of Float16 ?ws] by (simp add: map_fround_idem del: map_map)
    then show ?thesis unfolding 1 by (simp add: strictly_inside_iff)
  next
    case b
    let ?ws = "map (fround Float32) vs"
    have 1: "reduce_col (FloatS t vs) = FloatS Float32 ?ws"
      using b by (simp add: reduce_col_FloatS_choice)
    have n: "\<not> range_within Float16 ?ws" using grid_16_32 b(1) by (rule range_within_fround)
    have "reduce_col (FloatS Float32 ?ws) = FloatS Float32 ?ws \<longleftrightarrow> range_within Float32 ?ws"
      unfolding reduce_col_FloatS_choice [of Float32 ?ws] using n
      by (simp add: map_fround_idem del: map_map)
    then show ?thesis unfolding 1 by (simp add: strictly_inside_iff)
  next
    case c
    let ?ws = "map (fround Float64) vs"
    have 1: "reduce_col (FloatS t vs) = FloatS Float64 ?ws"
      using c by (simp add: reduce_col_FloatS_choice)
    have n16: "\<not> range_within Float16 ?ws" using grid_16_64 c(1) by (rule range_within_fround)
    have n32: "\<not> range_within Float32 ?ws" using grid_32_64 c(2) by (rule range_within_fround)
    note n = n16 n32
    have "reduce_col (FloatS Float64 ?ws) = FloatS Float64 ?ws"
      unfolding reduce_col_FloatS_choice [of Float64 ?ws] using n
      by (simp add: map_fround_idem del: map_map)
    then show ?thesis unfolding 1 by simp
  qed
qed

lemma reduce_col_twice_IntS:
  "reduce_col (reduce_col (IntS t vs)) = reduce_col (IntS t vs)"
proof (cases "t = Int8 \<or> vs = []")
  case True
  then show ?thesis by (auto simp: reduce_col_Int8 reduce_col_IntS_empty)
next
  case False
  then have t: "t \<noteq> Int8" and ne: "vs \<noteq> []" by simp_all
  note r = reduce_col_IntS [OF t ne]
  consider (a) "fits Int8 vs" | (b) "\<not> fits Int8 vs" "fits Int16 vs"
    | (c) "\<not> fits Int8 vs" "\<not> fits Int16 vs" "fits Int32 vs"
    | (d) "\<not> fits Int8 vs" "\<not> fits Int16 vs" "\<not> fits Int32 vs" "fits Int64 vs"
    | (e) "\<not> fits Int8 vs" "\<not> fits Int16 vs" "\<not> fits Int32 vs" "\<not> fits Int64 vs"
    by blast
  then show ?thesis
  proof cases
    case a
    then show ?thesis using r by (simp add: reduce_col_Int8)
  next
    case b
    then show ?thesis using r reduce_col_IntS [of Int16 vs] ne by simp
  next
    case c
    then show ?thesis using r reduce_col_IntS [of Int32 vs] ne by simp
  next
    case d
    then show ?thesis using r reduce_col_IntS [of Int64 vs] ne by simp
  next
    case e
    then show ?thesis using r by simp
  qed
qed

lemma reduce_col_twice:
  "reduce_col (reduce_col s) = reduce_col s \<longleftrightarrow> stable_col (reduce_col s)"
proof (cases s)
  case (IntS t vs)
  obtain T where "reduce_col (IntS t vs) = IntS T vs" using reduce_col_IntS_any by blast
  then show ?thesis using reduce_col_twice_IntS [of t vs] IntS by simp
next
  case (FloatS t vs)
  then show ?thesis by (simp only: reduce_col_twice_FloatS)
next
  case (OtherS t vs)
  then show ?thesis by (simp add: reduce_col_OtherS)
qed

lemma reduced_twice:
  "reduced (reduced df) = reduced df \<longleftrightarrow> (\<forall>c\<in>set (columns (reduced df)). stable_col (snd c))"
proof -
  let ?r = "reduced df"
  let ?f = "\<lambda>c. (fst c, reduce_col (snd c))"
  have a: "reduced ?r = ?r\<lparr>columns := map ?f (columns ?r)\<rparr>" by (rule reduced_def)
  have "reduced ?r = ?r \<longleftrightarrow> map ?f (columns ?r) = columns ?r"
  proof
    assume "reduced ?r = ?r"
    then have "columns (reduced ?r) = columns ?r" by (rule arg_cong)
    then show "map ?f (columns ?r) = columns ?r" by (subst (asm) a) simp
  next
    assume "map ?f (columns ?r) = columns ?r"
    then show "reduced ?r = ?r" by (subst a) simp
  qed
  also have "\<dots> \<longleftrightarrow> map ?f (columns ?r) = map id (columns ?r)" by simp
  also have "\<dots> \<longleftrightarrow> (\<forall>c\<in>set (columns ?r). ?f c = id c)"
    by (simp only: map_eq_conv)
  also have "\<dots> \<longleftrightarrow> (\<forall>c\<in>set (columns ?r). reduce_col (snd c) = snd c)"
    by (simp add: prod_eq_iff)
  also have "\<dots> \<longleftrightarrow> (\<forall>c\<in>set (columns ?r). stable_col (snd c))"
  proof -
    have "reduce_col (snd c) = snd c \<longleftrightarrow> stable_col (snd c)" if "c \<in> set (columns ?r)" for c
    proof -
      from that obtain c0 where "snd c = reduce_col (snd c0)" by (auto simp: reduced_def)
      then show ?thesis by (simp only: reduce_col_twice)
    qed
    then show ?thesis by blast
  qed
  finally show ?thesis .
qed

text \<open>
  Claim C6, as amended. For a frame with distinct column names, \<open>reduce_dtypes\<close> returns a
  frame, \<open>reduce_dtypes\<close> applied to that frame returns a frame again, and the second frame is
  identical to the first exactly when every float16 and every float32 column of the first
  passes the range test of its own type: some value is not NaN, and every value that is not
  NaN is finite and strictly between the minimum and the maximum of the type. Integer
  columns, non-numeric columns and float64 columns of the first frame never change in the
  second application.
\<close>

theorem reduce_dtypes_twice:
  assumes "distinct (map fst (columns df))"
  shows "\<exists>df1 out1 df2 out2.
     reduce_dtypes df verbose = Inr (df1, out1) \<and> reduce_dtypes df1 verbose = Inr (df2, out2) \<and>
     (df2 = df1 \<longleftrightarrow> (\<forall>c\<in>set (columns df1). stable_col (snd c)))"
proof -
  have d: "distinct (map fst (columns (reduced df)))"
    using assms by (simp add: reduced_def comp_def)
  have 1: "reduce_dtypes df verbose = Inr (reduced df, if verbose then [MemUsageLine] else [])"
    using assms by (rule reduce_dtypes_distinct)
  have 2: "reduce_dtypes (reduced df) verbose
      = Inr (reduced (reduced df), if verbose then [MemUsageLine] else [])"
    using d by (rule reduce_dtypes_distinct)
  show ?thesis
    by (intro exI conjI) (rule 1, rule 2, rule reduced_twice)
qed

theorem reduce_dtypes_twice_witness:
  "reduce_dtypes \<lparr>index = [0, 1], columns = [(''i'', IntS Int64 [300, -5]), (''x'', FloatS Float64 [Fin (3 / 2), NaN])]\<rparr> False
     = Inr (\<lparr>index = [0, 1], columns = [(''i'', IntS Int16 [300, -5]), (''x'', FloatS Float16 [Fin (3 / 2), NaN])]\<rparr>, [])
   \<and> reduce_dtypes \<lparr>index = [0, 1], columns = [(''i'', IntS Int16 [300, -5]), (''x'', FloatS Float16 [Fin (3 / 2), NaN])]\<rparr> False
     = Inr (\<lparr>index = [0, 1], columns = [(''i'', IntS Int16 [300, -5]), (''x'', FloatS Float16 [Fin (3 / 2), NaN])]\<rparr>, [])"
proof -
  let ?df = "\<lparr>index = [0, 1], columns = [(''i'', IntS Int64 [300, -5]), (''x'', FloatS Float64 [Fin (3 / 2), NaN])]\<rparr>"
  let ?d1 = "\<lparr>index = [0, 1], columns = [(''i'', IntS Int16 [300, -5]), (''x'', FloatS Float16 [Fin (3 / 2), NaN])]\<rparr>"
  have a: "fround Float16 (Fin (3 / 2)) = Fin (3 / 2)"
    by (rule fround_eqI [where k = 0 and n = 1536])
      (simp_all add: pow2_def finfo_max_def round_half_even_def Let_def)
  have r1: "range_within Float16 [Fin (3 / 2), NaN]"
    by (simp add: range_within_def finfo_max_def finfo_min_def pow2_def)
  have c1: "reduce_col (FloatS Float64 [Fin (3 / 2), NaN]) = FloatS Float16 [Fin (3 / 2), NaN]"
    unfolding reduce_col_FloatS_choice using r1 a by (simp del: fround.simps(1))
  have c2: "reduce_col (IntS Int64 [300, -5]) = IntS Int16 [300, -5]"
    by (simp add: reduce_col_IntS fits_def iinfo_min_def iinfo_max_def)
  have e: "reduce_dtypes ?df False = Inr (?d1, [])"
    by (simp add: reduce_dtypes_def getitem_def setitem_def c1 c2)
  have s: "\<forall>c\<in>set (columns ?d1). stable_col (snd c)"
    using r1 by (simp add: strictly_inside_iff)
  have "distinct (map fst (columns ?df))" by simp
  then obtain df1 out1 df2 out2 where
    r: "reduce_dtypes ?df False = Inr (df1, out1)" "reduce_dtypes df1 False = Inr (df2, out2)"
       "df2 = df1 \<longleftrightarrow> (\<forall>c\<in>set (columns df1). stable_col (snd c))"
    using reduce_dtypes_twice [of ?df False] by blast
  have 1: "df1 = ?d1" using r(1) unfolding e by simp
  have 2: "df2 = ?d1" using r(3) s unfolding 1 by blast
  have "out2 = []" using r(2) by (simp add: reduce_dtypes_def split: sum.splits)
  then have "reduce_dtypes ?d1 False = Inr (?d1, [])" using r(2) unfolding 1 2 by simp
  with e show ?thesis by (intro conjI)
qed

text \<open>
  Claim C6 as stated fails when a value is rounded onto the maximum of the narrower type. A
  float64 column holding 65500 passes the test for float16 and becomes the float16 column
  holding 65504, the maximum of float16; that column fails the strict test for float16 and
  the second application makes it float32.
\<close>

theorem reduce_dtypes_twice_counterexample:
  "reduce_dtypes \<lparr>index = [0], columns = [(''x'', FloatS Float64 [Fin 65500])]\<rparr> False
     = Inr (\<lparr>index = [0], columns = [(''x'', FloatS Float16 [Fin 65504])]\<rparr>, [])
   \<and> reduce_dtypes \<lparr>index = [0], columns = [(''x'', FloatS Float16 [Fin 65504])]\<rparr> False
     = Inr (\<lparr>index = [0], columns = [(''x'', FloatS Float32 [Fin 65504])]\<rparr>, [])"
proof -
  have a: "fround Float16 (Fin 65500) = Fin 65504"
    by (rule fround_eqI [where k = 15 and n = 2047])
      (simp_all add: pow2_def finfo_max_def round_half_even_def Let_def floor_rat_numeral_divide)
  have b: "fround Float32 (Fin 65504) = Fin 65504"
    by (rule fround_eqI [where k = 15 and n = 16769024])
      (simp_all add: pow2_def finfo_max_def round_half_even_def Let_def floor_rat_numeral_divide)
  have r1: "range_within Float16 [Fin 65500]"
    by (simp add: range_within_def finfo_max_def finfo_min_def pow2_def)
  have r2: "\<not> range_within Float16 [Fin 65504]" "range_within Float32 [Fin 65504]"
    by (simp_all add: range_within_def finfo_max_def finfo_min_def pow2_def)
  have c1: "reduce_col (FloatS Float64 [Fin 65500]) = FloatS Float16 [Fin 65504]"
    unfolding reduce_col_FloatS_choice using r1 a by (simp del: fround.simps(1))
  have c2: "reduce_col (FloatS Float16 [Fin 65504]) = FloatS Float32 [Fin 65504]"
    unfolding reduce_col_FloatS_choice using r2 b by (simp del: fround.simps(1))
  show ?thesis
    by (simp add: reduce_dtypes_def getitem_def setitem_def c1 c2)
qed

end
